theory Spec2Isabelle
  imports Main "HOL-Library.Word"
begin

section \<open>Data model\<close>

text \<open>
  The program (\<^verbatim>\<open>zitrog.py\<close>) reads an ID3 tag from the front of an MP3 file, keeps the
  frames named by the caller, re-encodes the UTF-16 ones into Shift-JIS and writes a new
  file. Python \<^verbatim>\<open>bytes\<close> are lists of 8-bit words. A Python \<^verbatim>\<open>str\<close> is a sequence of
  Unicode code points, here a list of naturals; \<open>ustr_of\<close> writes an ASCII literal that way.
  The text of binary digits that the size codec builds with \<^verbatim>\<open>format\<close> is an Isabelle string.
\<close>

type_synonym bytes = "8 word list"

type_synonym ustr = "nat list"

definition ustr_of :: "string \<Rightarrow> ustr" where
  "ustr_of s = map of_char s"

text \<open>
  Every exception the modelled code can raise is a value. \<open>TypeError\<close> is what line 147,
  \<^verbatim>\<open>raise "Invalid ID3 identifier"\<close>, raises: Python 3 refuses to raise a \<^verbatim>\<open>str\<close>
  (exceptions must derive from BaseException). \<open>OtherEncodeError\<close> stands for any
  exception of the codec that is not a UnicodeEncodeError.
\<close>

datatype error =
    ValueError
  | OverflowError
  | TypeError
  | UnicodeDecodeError
  | UnicodeEncodeError
  | OtherEncodeError
  | NameError string
  | EOFError
  | FileNotFoundError
  | ReraisedEncodingError

text \<open>The dictionary appended to \<^verbatim>\<open>id3_definition["frames"]\<close> (lines 240-245).\<close>

record frame =
  tag :: ustr
  data_flags :: bytes
  data :: bytes
  data_was_converted :: bool

text \<open>The dictionary \<^verbatim>\<open>id3_definition\<close> that \<^verbatim>\<open>read_id3\<close> returns (lines 121-125, 149-150).\<close>

record id3_definition =
  header :: bytes
  frames :: "frame list"
  content_offset :: nat

subsection \<open>Library functions taken as parameters\<close>

text \<open>
  Three functions come from outside the repository: Python's Shift-JIS encoder
  (\<^verbatim>\<open>str.encode("Shift-JIS")\<close>), its UTF-16 decoder (\<^verbatim>\<open>bytes.decode("UTF-16")\<close>) and
  \<^verbatim>\<open>unidecode\<close>. They are parameters of the model. An encoder call returns the bytes, raises
  UnicodeEncodeError (\<open>Unmappable\<close>) or raises something else (\<open>EncodeFailure\<close>); the
  decoder returns \<open>None\<close> for UnicodeDecodeError.
\<close>

datatype enc_result = Encoded bytes | Unmappable | EncodeFailure

record libs =
  sjis_encode :: "ustr \<Rightarrow> enc_result"
  utf16_decode :: "bytes \<Rightarrow> ustr option"
  unidecode :: "ustr \<Rightarrow> ustr"

text \<open>ISO-8859-1 maps every byte to the code point of the same number, and back.\<close>

definition iso_decode :: "bytes \<Rightarrow> ustr" where
  "iso_decode bs = map unat bs"


section \<open>The synchsafe size codec\<close>

text \<open>
  \<open>bin_digits n\<close> is \<^verbatim>\<open>"{:b}".format(n)\<close>, and \<open>format_b w n\<close> is the zero-padded
  \<^verbatim>\<open>"{:0wb}".format(n)\<close>: at least \<open>w\<close> digits, more when \<open>n\<close> needs them.
\<close>

fun bin_digits :: "nat \<Rightarrow> string" where
  "bin_digits n =
     (if n < 2 then [if n = 0 then CHR ''0'' else CHR ''1'']
      else bin_digits (n div 2) @ [if n mod 2 = 0 then CHR ''0'' else CHR ''1''])"

declare bin_digits.simps [simp del]

definition format_b :: "nat \<Rightarrow> nat \<Rightarrow> string" where
  "format_b w n = replicate (w - length (bin_digits n)) CHR ''0'' @ bin_digits n"

text \<open>
  \<^verbatim>\<open>int(s, 2)\<close> on a text of binary digits. The empty text raises ValueError. (Python also
  accepts a sign, blanks and underscores; the program only passes digits.)
\<close>

definition int_base2 :: "string \<Rightarrow> error + nat" where
  "int_base2 s =
     (if s = [] \<or> \<not> list_all (\<lambda>c. c = CHR ''0'' \<or> c = CHR ''1'') s then Inl ValueError
      else Inr (foldl (\<lambda>acc c. 2 * acc + (if c = CHR ''1'' then 1 else 0)) 0 s))"

text \<open>
  \<^verbatim>\<open>textwrap.wrap(text, width)\<close> on a text without blanks: one long word, broken into
  pieces of \<open>width\<close> characters, the last one shorter.
\<close>

function wrap :: "string \<Rightarrow> nat \<Rightarrow> string list" where
  "wrap text width =
     (if text = [] \<or> width = 0 then []
      else take width text # wrap (drop width text) width)"
  by pat_completeness auto
termination
  by (relation "measure (\<lambda>(text, width). length text)") auto

declare wrap.simps [simp del]

text \<open>\<^verbatim>\<open>v.to_bytes(k, "big")\<close> and \<^verbatim>\<open>int.from_bytes(bs, "big")\<close>.\<close>

definition to_bytes :: "nat \<Rightarrow> nat \<Rightarrow> error + bytes" where
  "to_bytes v k =
     (if v \<ge> 256 ^ k then Inl OverflowError
      else Inr (map (\<lambda>i. word_of_nat (v div 256 ^ (k - 1 - i))) [0..<k]))"

definition from_bytes :: "bytes \<Rightarrow> nat" where
  "from_bytes bs = foldl (\<lambda>acc b. 256 * acc + unat b) 0 bs"

text \<open>Lines 131-136 of \<^verbatim>\<open>read_id3\<close>: the size of the tag, seven bits from each byte.\<close>

definition decode_synchsafe :: "bytes \<Rightarrow> error + nat" where
  "decode_synchsafe id3_size_encoded =
     int_base2 (concat (map (\<lambda>byte. drop 1 (format_b 8 (unat byte))) id3_size_encoded))"

text \<open>Lines 288-293 of \<^verbatim>\<open>write_id3\<close>: the size of the frame block, as four bytes.\<close>

definition encode_synchsafe :: "nat \<Rightarrow> error + bytes" where
  "encode_synchsafe n =
     (case int_base2 (concat (map (\<lambda>byte. CHR ''0'' # byte) (wrap (format_b 28 n) 7))) of
        Inl e \<Rightarrow> Inl e
      | Inr v \<Rightarrow> to_bytes v 4)"

text \<open>
  Two functions for the proofs only: the numeral of exactly \<open>w\<close> binary digits, and the
  number a text of binary digits denotes.
\<close>

fun bits :: "nat \<Rightarrow> nat \<Rightarrow> string" where
  "bits 0 n = []"
| "bits (Suc w) n = bits w (n div 2) @ [if n mod 2 = 0 then CHR ''0'' else CHR ''1'']"

definition bin_val :: "string \<Rightarrow> nat" where
  "bin_val s = foldl (\<lambda>acc c. 2 * acc + (if c = CHR ''1'' then 1 else 0)) 0 s"

section \<open>The text transcoder\<close>

text \<open>Lines 77-85.\<close>

definition encode_data :: "libs \<Rightarrow> ustr \<Rightarrow> error + bytes" where
  "encode_data L d =
     (case sjis_encode L d of
        Encoded bs \<Rightarrow> Inr (0 # bs @ [0])
      | Unmappable \<Rightarrow> Inl UnicodeEncodeError
      | EncodeFailure \<Rightarrow> Inl OtherEncodeError)"

definition validate_data_encode :: "libs \<Rightarrow> ustr \<Rightarrow> bool" where
  "validate_data_encode L d = (case encode_data L d of Inr _ \<Rightarrow> True | Inl _ \<Rightarrow> False)"

text \<open>
  Lines 87-105. The handler of the bare \<^verbatim>\<open>except\<close> (lines 96-103) reads the names
  \<^verbatim>\<open>data_raw\<close>, \<^verbatim>\<open>data_is_unicode\<close>, \<^verbatim>\<open>alt_data_decoded\<close> and
  \<^verbatim>\<open>initial_encoding_error\<close>. Python looks a name up among the local names of the function,
  then the names of the module. The arguments of \<^verbatim>\<open>print_log_lines\<close> are evaluated, in
  order, before anything is printed, so the first unbound name raises NameError with
  nothing printed. The model returns what was printed (each line by its fixed text) and
  the exception raised.
\<close>

definition module_globals :: "string list" where
  "module_globals =
     [''argparse'', ''Enum'', ''os_makedirs'', ''os_path'', ''os_remove'', ''re_search'',
      ''re_sub'', ''wrap'', ''unidecode'', ''Action'', ''DEFAULT_PRESERVED_TAGS'',
      ''ID3_DATA_FLAG_SIZE'', ''ID3_DELIMITER'', ''ENCODING_ISO'', ''ENCODING_UNICODE'',
      ''ENCODING_SHIFT_JIS'', ''LOGO'', ''accepted_corrections'', ''print_log_lines'',
      ''yes_no'', ''padded_hex'', ''encode_data'', ''validate_data_encode'',
      ''identify_encode_error_positions'', ''suggest_data_changes'', ''read_id3'',
      ''write_id3'', ''main'']"

definition identify_locals :: "string list" where
  "identify_locals = [''data'', ''error_positions'', ''char_index'', ''char'']"

definition fatal_encoding_report :: "string list \<Rightarrow> string list \<times> error" where
  "fatal_encoding_report scope =
     (if ''data_raw'' \<notin> set scope then ([], NameError ''data_raw'')
      else if ''data_is_unicode'' \<notin> set scope then ([], NameError ''data_is_unicode'')
      else if ''alt_data_decoded'' \<notin> set scope then ([], NameError ''alt_data_decoded'')
      else
        (let printed = [''===== FATAL ENCODING ERROR ====='', ''RAW FRAME DATA: '',
                        ''DECODED FRAME DATA (from '', ''REFERENCE ENCODE (utf-8): '']
         in if ''initial_encoding_error'' \<notin> set scope
            then (printed, NameError ''initial_encoding_error'')
            else (printed, ReraisedEncodingError)))"

fun identify_loop ::
  "libs \<Rightarrow> nat \<Rightarrow> ustr \<Rightarrow> nat list \<Rightarrow> string list \<times> (error + nat list)" where
  "identify_loop L char_index [] error_positions = ([], Inr error_positions)"
| "identify_loop L char_index (char # rest) error_positions =
     (case sjis_encode L [char] of
        Encoded bs \<Rightarrow> identify_loop L (char_index + 1) rest error_positions
      | Unmappable \<Rightarrow> identify_loop L (char_index + 1) rest (error_positions @ [char_index])
      | EncodeFailure \<Rightarrow>
          (case fatal_encoding_report (identify_locals @ module_globals) of
             (printed, e) \<Rightarrow> (printed, Inl e)))"

definition identify_encode_error_positions ::
  "libs \<Rightarrow> ustr \<Rightarrow> string list \<times> (error + nat list)" where
  "identify_encode_error_positions L d = identify_loop L 0 d []"

text \<open>Lines 107-112. The placeholder \<^verbatim>\<open>"_"\<close> is code point 95.\<close>

definition suggest_data_changes :: "libs \<Rightarrow> ustr \<Rightarrow> nat list \<Rightarrow> ustr" where
  "suggest_data_changes L d error_positions =
     concat (map (\<lambda>(char_index, char).
                if char_index \<notin> set error_positions then [char]
                else (let decoded_char = unidecode L [char]
                      in if decoded_char \<noteq> [char] then decoded_char else [95]))
             (enumerate 0 d))"

text \<open>
  Standard input is the list of the lines still to be read; \<^verbatim>\<open>input()\<close> takes the first
  and raises EOFError when none is left. \<open>strip\<close> is \<^verbatim>\<open>str.strip()\<close>, which removes the
  characters Python counts as white space from both ends.
\<close>

definition isspace :: "nat \<Rightarrow> bool" where
  "isspace c =
     ((9 \<le> c \<and> c \<le> 13) \<or> (28 \<le> c \<and> c \<le> 32) \<or> c = 133 \<or> c = 160 \<or> c = 5760
      \<or> (8192 \<le> c \<and> c \<le> 8202) \<or> c = 8232 \<or> c = 8233 \<or> c = 8239 \<or> c = 8287
      \<or> c = 12288)"

definition strip :: "ustr \<Rightarrow> ustr" where
  "strip s = rev (dropWhile isspace (rev (dropWhile isspace s)))"

text \<open>
  Lines 232-233 and 235-236: encode the accepted text, then store it in the cache
  \<^verbatim>\<open>accepted_corrections\<close> under the text the frame decoded to. When the encoder raises,
  the assignment to the cache is not reached.
\<close>

definition accept_correction ::
  "libs \<Rightarrow> ustr \<Rightarrow> ustr \<Rightarrow> (ustr \<rightharpoonup> ustr) \<Rightarrow> ustr list
     \<Rightarrow> (error + bytes) \<times> (ustr \<rightharpoonup> ustr) \<times> ustr list" where
  "accept_correction L data_decoded accepted_text accepted_corrections stdin =
     (case encode_data L accepted_text of
        Inl e \<Rightarrow> (Inl e, accepted_corrections, stdin)
      | Inr data_encoded \<Rightarrow>
          (Inr data_encoded, accepted_corrections(data_decoded \<mapsto> accepted_text), stdin))"

text \<open>
  Lines 206-238: the loop \<^verbatim>\<open>while data_encoded is None\<close>. It returns the payload or the
  exception, the cache and what is left of standard input.
\<close>

fun correction_loop ::
  "libs \<Rightarrow> bool \<Rightarrow> ustr \<Rightarrow> ustr \<Rightarrow> (ustr \<rightharpoonup> ustr) \<Rightarrow> ustr list
     \<Rightarrow> (error + bytes) \<times> (ustr \<rightharpoonup> ustr) \<times> ustr list" where
  "correction_loop L automatic_correction data_decoded alt_data_decoded accepted_corrections stdin =
     (if validate_data_encode L alt_data_decoded
      then (encode_data L alt_data_decoded, accepted_corrections, stdin)
      else
        (case snd (identify_encode_error_positions L alt_data_decoded) of
           Inl e \<Rightarrow> (Inl e, accepted_corrections, stdin)
         | Inr error_positions \<Rightarrow>
             (if automatic_correction
              then accept_correction L data_decoded
                     (suggest_data_changes L alt_data_decoded error_positions)
                     accepted_corrections stdin
              else
                (case stdin of
                   [] \<Rightarrow> (Inl EOFError, accepted_corrections, stdin)
                 | line # stdin' \<Rightarrow>
                     (if strip line = []
                      then accept_correction L data_decoded
                             (suggest_data_changes L alt_data_decoded error_positions)
                             accepted_corrections stdin'
                      else if validate_data_encode L (strip line)
                      then accept_correction L data_decoded (strip line)
                             accepted_corrections stdin'
                      else correction_loop L automatic_correction data_decoded (strip line)
                             accepted_corrections stdin')))))"

declare correction_loop.simps [simp del]

text \<open>
  Lines 198-238: a frame that is not Unicode keeps its raw bytes; a Unicode one starts
  the loop from its cached correction, or from the decoded text when there is none.
\<close>

definition transcode ::
  "libs \<Rightarrow> bool \<Rightarrow> bool \<Rightarrow> bytes \<Rightarrow> ustr \<Rightarrow> (ustr \<rightharpoonup> ustr) \<Rightarrow> ustr list
     \<Rightarrow> (error + bytes) \<times> (ustr \<rightharpoonup> ustr) \<times> ustr list" where
  "transcode L automatic_correction data_is_unicode data_raw data_decoded accepted_corrections stdin =
     (if \<not> data_is_unicode then (Inr data_raw, accepted_corrections, stdin)
      else correction_loop L automatic_correction data_decoded
             (case accepted_corrections data_decoded of
                Some cached \<Rightarrow> cached
              | None \<Rightarrow> data_decoded)
             accepted_corrections stdin)"

section \<open>The container parser\<close>

text \<open>
  Line 158: \<^verbatim>\<open>re_search(r"^[A-Z0-9]{4}$", tag_name)\<close>. The pattern asks for four characters
  from \<^verbatim>\<open>A-Z\<close> and \<^verbatim>\<open>0-9\<close> and then the end of the text; \<^verbatim>\<open>$\<close> also matches before a
  final line feed.
\<close>

definition tag_char :: "nat \<Rightarrow> bool" where
  "tag_char c = ((65 \<le> c \<and> c \<le> 90) \<or> (48 \<le> c \<and> c \<le> 57))"

definition re_search_tag :: "ustr \<Rightarrow> bool" where
  "re_search_tag s =
     (list_all tag_char (take 4 s) \<and> (length s = 4 \<or> (length s = 5 \<and> s ! 4 = 10)))"

text \<open>
  Lines 173-177: the text of the frame, without the first byte and without the two
  (UTF-16) or one (ISO-8859-1) last bytes.
\<close>

definition decode_frame_data :: "libs \<Rightarrow> bool \<Rightarrow> bytes \<Rightarrow> ustr option" where
  "decode_frame_data L data_is_unicode data_raw =
     (if data_is_unicode then utf16_decode L (drop 1 (take (length data_raw - 2) data_raw))
      else Some (iso_decode (drop 1 (take (length data_raw - 1) data_raw))))"

text \<open>
  Lines 152-250: the loop \<^verbatim>\<open>while True\<close>. The open file is the list of the bytes not yet
  read: \<^verbatim>\<open>read(n)\<close> takes up to \<open>n\<close> of them. The loop carries the frames collected so
  far, the cache and standard input. Console output is not part of the model.
\<close>

function read_frames ::
  "libs \<Rightarrow> ustr list \<Rightarrow> bool \<Rightarrow> bytes \<Rightarrow> frame list \<Rightarrow> (ustr \<rightharpoonup> ustr) \<Rightarrow> ustr list
     \<Rightarrow> (error + frame list) \<times> (ustr \<rightharpoonup> ustr) \<times> ustr list" where
  "read_frames L preserved_tags automatic_correction input_file frames_so_far accepted_corrections stdin =
     (if \<not> re_search_tag (iso_decode (take 4 (take 8 input_file)))
      then (Inr frames_so_far, accepted_corrections, stdin)
      else
        (let frame_header = take 8 input_file;
             tag_name = iso_decode (take 4 frame_header);
             data_length = from_bytes (take 4 (drop 4 frame_header));
             data_flags = take 2 (drop 8 input_file);
             data_raw = take data_length (drop 10 input_file);
             data_is_unicode = (take 1 data_raw = [1])
         in if tag_name \<notin> set preserved_tags
            then read_frames L preserved_tags automatic_correction
                   (drop (10 + data_length) input_file) frames_so_far accepted_corrections stdin
            else
              (case decode_frame_data L data_is_unicode data_raw of
                 None \<Rightarrow> (Inl UnicodeDecodeError, accepted_corrections, stdin)
               | Some data_decoded \<Rightarrow>
                   (case transcode L automatic_correction data_is_unicode data_raw data_decoded
                           accepted_corrections stdin of
                      (Inl e, accepted_corrections', stdin') \<Rightarrow>
                        (Inl e, accepted_corrections', stdin')
                    | (Inr data_encoded, accepted_corrections', stdin') \<Rightarrow>
                        read_frames L preserved_tags automatic_correction
                          (drop (10 + data_length) input_file)
                          (frames_so_far @
                             [\<lparr>tag = tag_name, data_flags = data_flags, data = data_encoded,
                               data_was_converted = data_is_unicode\<rparr>])
                          accepted_corrections' stdin'))))"
  by pat_completeness auto
termination
  by (relation "measure (\<lambda>(L, preserved_tags, automatic_correction, input_file, rest). length input_file)")
    (auto simp: re_search_tag_def iso_decode_def)

declare read_frames.simps [simp del]

text \<open>
  Lines 114-161. The first argument of the source is the path of a file; here it is the
  content of that file. The cache \<^verbatim>\<open>accepted_corrections\<close> is a global of the module, so it
  is an argument and a result, and it is returned also when an exception is raised.
\<close>

definition read_id3 ::
  "libs \<Rightarrow> bytes \<Rightarrow> ustr list \<Rightarrow> bool \<Rightarrow> (ustr \<rightharpoonup> ustr) \<Rightarrow> ustr list
     \<Rightarrow> (error + id3_definition) \<times> (ustr \<rightharpoonup> ustr) \<times> ustr list" where
  "read_id3 L input_file preserved_tags automatic_correction accepted_corrections stdin =
     (let id3_header = take 10 input_file;
          id3_identifier = iso_decode (take 3 id3_header);
          id3_size_encoded = take 4 (drop 6 id3_header)
      in case decode_synchsafe id3_size_encoded of
           Inl e \<Rightarrow> (Inl e, accepted_corrections, stdin)
         | Inr id3_size \<Rightarrow>
             (if id3_identifier \<noteq> ustr_of ''ID3''
              then (Inl TypeError, accepted_corrections, stdin)
              else
                (case read_frames L preserved_tags automatic_correction (drop 10 input_file) []
                        accepted_corrections stdin of
                   (Inl e, accepted_corrections', stdin') \<Rightarrow> (Inl e, accepted_corrections', stdin')
                 | (Inr frames_read, accepted_corrections', stdin') \<Rightarrow>
                     (Inr \<lparr>header = take 6 id3_header, frames = frames_read,
                           content_offset = length id3_header + id3_size\<rparr>,
                      accepted_corrections', stdin'))))"

text \<open>
  Names for the parts of one turn of the loop, as it reads them from the bytes not yet
  read: the identifier, the declared length, the raw data and what is left after the frame.
\<close>

definition frame_tag :: "bytes \<Rightarrow> ustr" where
  "frame_tag input_file = iso_decode (take 4 (take 8 input_file))"

definition frame_data_length :: "bytes \<Rightarrow> nat" where
  "frame_data_length input_file = from_bytes (take 4 (drop 4 (take 8 input_file)))"

definition frame_data_raw :: "bytes \<Rightarrow> bytes" where
  "frame_data_raw input_file = take (frame_data_length input_file) (drop 10 input_file)"

definition next_frame :: "bytes \<Rightarrow> bytes" where
  "next_frame input_file = drop (10 + frame_data_length input_file) input_file"

text \<open>
  The frame block in the words of the specification: the identifiers of the frame
  records, one record after the other (ten header bytes and as many data bytes as the
  header declares), up to the first record whose identifier does not match the pattern.
  The loop of \<^verbatim>\<open>read_id3\<close> is compared with it.
\<close>

function record_tags :: "bytes \<Rightarrow> ustr list" where
  "record_tags input_file =
     (if \<not> re_search_tag (frame_tag input_file) then []
      else frame_tag input_file # record_tags (next_frame input_file))"
  by pat_completeness auto
termination
  by (relation "measure length")
    (auto simp: re_search_tag_def frame_tag_def iso_decode_def next_frame_def)

declare record_tags.simps [simp del]

section \<open>The container writer\<close>













section \<open>Properties the claims speak of\<close>

text \<open>
  The cache is sound when every text stored in it encodes without error. A payload is
  encoding-valid when \<^verbatim>\<open>encode_data\<close> returns it for some text: the indicator byte, the
  Shift-JIS encoding of the text, the delimiter byte.
\<close>

definition cache_sound :: "libs \<Rightarrow> (ustr \<rightharpoonup> ustr) \<Rightarrow> bool" where
  "cache_sound L cache = (\<forall>k v. cache k = Some v \<longrightarrow> validate_data_encode L v)"

definition encoding_valid :: "libs \<Rightarrow> bytes \<Rightarrow> bool" where
  "encoding_valid L payload = (\<exists>t. encode_data L t = Inr payload)"

text \<open>
  What the claim about the automatic correction takes from the libraries: the encoder
  works character by character, encodes every ASCII character and raises nothing but
  UnicodeEncodeError, and \<^verbatim>\<open>unidecode\<close> returns ASCII text.
\<close>

definition library_contract :: "libs \<Rightarrow> bool" where
  "library_contract L =
     ((\<forall>t. validate_data_encode L t = list_all (\<lambda>ch. validate_data_encode L [ch]) t)
      \<and> (\<forall>ch. ch < 128 \<longrightarrow> validate_data_encode L [ch])
      \<and> (\<forall>ch. list_all (\<lambda>x. x < 128) (unidecode L [ch]))
      \<and> (\<forall>ch. sjis_encode L [ch] \<noteq> EncodeFailure))"

section \<open>A concrete library for the examples\<close>

text \<open>
  The examples below need concrete library functions. \<open>demo_libs\<close> agrees with the Python
  libraries on the inputs the examples use: it encodes the ASCII code points as Shift-JIS
  does (one byte each, of the same number) and knows no other character, it decodes
  UTF-16 with an optional byte order mark (little endian without one), and it
  transliterates U+00E9 to \<^verbatim>\<open>e\<close>. \<open>failing_libs\<close> is an installation whose encoder raises an
  exception other than UnicodeEncodeError on every call, as \<^verbatim>\<open>str.encode\<close> does with
  LookupError when the codec is not installed.
\<close>

definition demo_sjis_encode :: "ustr \<Rightarrow> enc_result" where
  "demo_sjis_encode s =
     (if list_all (\<lambda>c. c < 128) s then Encoded (map word_of_nat s) else Unmappable)"

fun utf16_units :: "bool \<Rightarrow> bytes \<Rightarrow> nat list option" where
  "utf16_units little [] = Some []"
| "utf16_units little [b] = None"
| "utf16_units little (b0 # b1 # rest) =
     (case utf16_units little rest of
        None \<Rightarrow> None
      | Some us \<Rightarrow>
          Some ((if little then unat b0 + 256 * unat b1 else unat b1 + 256 * unat b0) # us))"

fun utf16_join :: "nat list \<Rightarrow> ustr option" where
  "utf16_join [] = Some []"
| "utf16_join [u] = (if 55296 \<le> u \<and> u < 57344 then None else Some [u])"
| "utf16_join (u # l # us) =
     (if 55296 \<le> u \<and> u < 56320
      then (if 56320 \<le> l \<and> l < 57344
            then (case utf16_join us of
                    None \<Rightarrow> None
                  | Some cs \<Rightarrow> Some ((65536 + (u - 55296) * 1024 + (l - 56320)) # cs))
            else None)
      else if 56320 \<le> u \<and> u < 57344 then None
      else (case utf16_join (l # us) of None \<Rightarrow> None | Some cs \<Rightarrow> Some (u # cs)))"

definition demo_utf16_decode :: "bytes \<Rightarrow> ustr option" where
  "demo_utf16_decode bs =
     (case (if take 2 bs = [255, 254] then utf16_units True (drop 2 bs)
            else if take 2 bs = [254, 255] then utf16_units False (drop 2 bs)
            else utf16_units True bs) of
        None \<Rightarrow> None
      | Some us \<Rightarrow> utf16_join us)"

definition demo_unidecode :: "ustr \<Rightarrow> ustr" where
  "demo_unidecode s =
     concat (map (\<lambda>c. if c < 128 then [c] else if c = 233 then ustr_of ''e'' else []) s)"

definition demo_libs :: libs where
  "demo_libs =
     \<lparr>sjis_encode = demo_sjis_encode, utf16_decode = demo_utf16_decode,
      unidecode = demo_unidecode\<rparr>"

definition failing_libs :: libs where
  "failing_libs =
     \<lparr>sjis_encode = (\<lambda>s. EncodeFailure), utf16_decode = demo_utf16_decode,
      unidecode = demo_unidecode\<rparr>"

text \<open>
  An example file: the header with size 59, a Unicode frame \<^verbatim>\<open>TIT2\<close> holding the text
  \<^verbatim>\<open>caf\<close> followed by U+00E9, a frame \<^verbatim>\<open>COMM\<close>, a frame \<^verbatim>\<open>1234\<close>, the bytes \<^verbatim>\<open>T!T2\<close> and
  six zero bytes, and four bytes of audio from offset 69 on.
\<close>

definition example_file :: bytes where
  "example_file =
     [73, 68, 51, 4, 0, 0, 0, 0, 0, 59,
      84, 73, 84, 50, 0, 0, 0, 13, 0, 0, 1, 255, 254, 99, 0, 97, 0, 102, 0, 233, 0, 0, 0,
      67, 79, 77, 77, 0, 0, 0, 3, 0, 0, 0, 65, 0,
      49, 50, 51, 52, 0, 0, 0, 3, 0, 0, 0, 66, 0,
      84, 33, 84, 50, 0, 0, 0, 0, 0, 0,
      255, 251, 144, 0]"

definition example_tags :: "ustr list" where
  "example_tags = [ustr_of ''TIT2'', ustr_of ''1234'']"

definition example_container :: id3_definition where
  "example_container =
     \<lparr>header = [73, 68, 51, 4, 0, 0],
      frames =
        [\<lparr>tag = ustr_of ''TIT2'', data_flags = [0, 0], data = [0, 99, 97, 102, 101, 0],
          data_was_converted = True\<rparr>,
         \<lparr>tag = ustr_of ''1234'', data_flags = [0, 0], data = [0, 66, 0],
          data_was_converted = False\<rparr>],
      content_offset = 69\<rparr>"






text \<open>
  A file whose only frame is \<^verbatim>\<open>TIT2\<close> with ISO-8859-1 data: the indicator byte 0, the
  text \<^verbatim>\<open>caf\<close> and the byte E9, the delimiter 0.
\<close>

definition latin1_file :: bytes where
  "latin1_file =
     [73, 68, 51, 4, 0, 0, 0, 0, 0, 26,
      84, 73, 84, 50, 0, 0, 0, 6, 0, 0, 0, 99, 97, 102, 233, 0,
      0, 0, 0, 0, 0, 0, 0, 0, 0, 0]"

text \<open>
  A file with the same Unicode frame twice: both \<^verbatim>\<open>TIT2\<close> frames hold the text \<^verbatim>\<open>caf\<close>
  followed by U+00E9. The file ends after the second frame.
\<close>

definition twice_file :: bytes where
  "twice_file =
     [73, 68, 51, 4, 0, 0, 0, 0, 0, 46,
      84, 73, 84, 50, 0, 0, 0, 13, 0, 0, 1, 255, 254, 99, 0, 97, 0, 102, 0, 233, 0, 0, 0,
      84, 73, 84, 50, 0, 0, 0, 13, 0, 0, 1, 255, 254, 99, 0, 97, 0, 102, 0, 233, 0, 0, 0]"

definition twice_container :: id3_definition where
  "twice_container =
     \<lparr>header = [73, 68, 51, 4, 0, 0],
      frames =
        [\<lparr>tag = ustr_of ''TIT2'', data_flags = [0, 0], data = [0, 99, 97, 102, 101, 0],
          data_was_converted = True\<rparr>,
         \<lparr>tag = ustr_of ''TIT2'', data_flags = [0, 0], data = [0, 99, 97, 102, 101, 0],
          data_was_converted = True\<rparr>],
      content_offset = 56\<rparr>"

section \<open>Properties of the size codec\<close>

lemma length_bits [simp]: "length (bits w n) = w"
  by (induction w arbitrary: n) auto

lemma bits_zero: "bits w 0 = replicate w CHR ''0''"
  by (induction w) (auto simp: replicate_append_same)

lemma bits_binary: "list_all (\<lambda>c. c = CHR ''0'' \<or> c = CHR ''1'') (bits w n)"
  by (induction w arbitrary: n) auto

lemma bits_add: "bits (a + b) n = bits a (n div 2 ^ b) @ bits b n"
proof (induction b arbitrary: n)
  case 0
  then show ?case by simp
next
  case (Suc b)
  have "n div 2 div 2 ^ b = n div 2 ^ Suc b"
    by (simp add: div_mult2_eq)
  with Suc [of "n div 2"] show ?case by simp
qed

lemma bits_mod: "bits w (n mod 2 ^ w) = bits w n"
proof (induction w arbitrary: n)
  case 0
  then show ?case by simp
next
  case (Suc w)
  have a: "n mod 2 ^ Suc w div 2 = (n div 2) mod 2 ^ w"
    by (simp add: mod_mult2_eq)
  have b: "n mod 2 ^ Suc w mod 2 = n mod 2"
    by (simp add: mod_mod_cancel)
  show ?case
    unfolding bits.simps a b using Suc [of "n div 2"] by simp
qed

lemma bin_val_snoc:
  "bin_val (s @ [c]) = 2 * bin_val s + (if c = CHR ''1'' then 1 else 0)"
  by (simp add: bin_val_def)

lemma bin_val_bits: "bin_val (bits w n) = n mod 2 ^ w"
proof (induction w arbitrary: n)
  case 0
  then show ?case by (simp add: bin_val_def)
next
  case (Suc w)
  have "n mod 2 ^ Suc w = 2 * (n div 2 mod 2 ^ w) + n mod 2"
    by (simp add: mod_mult2_eq)
  with Suc [of "n div 2"] show ?case
    by (auto simp: bin_val_snoc)
qed

lemma bin_val_append: "bin_val (s @ t) = bin_val s * 2 ^ length t + bin_val t"
proof (induction t rule: rev_induct)
  case Nil
  then show ?case by (simp add: bin_val_def)
next
  case (snoc c t)
  have "bin_val (s @ t @ [c]) = 2 * bin_val (s @ t) + (if c = CHR ''1'' then 1 else 0)"
    using bin_val_snoc [of "s @ t" c] by simp
  with snoc show ?case
    by (simp add: bin_val_snoc algebra_simps)
qed

lemma bin_val_Cons0: "bin_val (CHR ''0'' # s) = bin_val s"
  using bin_val_append [of "[CHR ''0'']" s] by (simp add: bin_val_def)

lemma int_base2_bin_val:
  "s \<noteq> [] \<Longrightarrow> list_all (\<lambda>c. c = CHR ''0'' \<or> c = CHR ''1'') s \<Longrightarrow> int_base2 s = Inr (bin_val s)"
  by (simp add: int_base2_def bin_val_def)

lemma int_base2_bits: "0 < w \<Longrightarrow> int_base2 (bits w n) = Inr (n mod 2 ^ w)"
  using bin_val_bits [of w n] bits_binary [of w n] length_bits [of w n]
  by (auto simp: int_base2_def bin_val_def simp del: length_bits)

lemma format_b_bits: "0 < w \<Longrightarrow> n < 2 ^ w \<Longrightarrow> format_b w n = bits w n"
proof (induction w arbitrary: n)
  case 0
  then show ?case by simp
next
  case (Suc w)
  show ?case
  proof (cases "n < 2")
    case True
    then have "n div 2 = 0" by simp
    with True show ?thesis
      by (simp add: format_b_def bin_digits.simps [of n] bits_zero)
  next
    case False
    with Suc.prems have w: "0 < w"
      by (cases w) auto
    from Suc.prems have "n div 2 < 2 ^ w" by auto
    with w Suc.IH have ih: "format_b w (n div 2) = bits w (n div 2)" by blast
    from False show ?thesis
      using ih by (simp add: format_b_def bin_digits.simps [of n])
  qed
qed

lemma wrap_Nil: "wrap [] w = []"
  by (simp add: wrap.simps)

lemma wrap_append: "length g = w \<Longrightarrow> 0 < w \<Longrightarrow> wrap (g @ r) w = g # wrap r w"
  by (subst wrap.simps) auto

lemma wrap_single: "length g = w \<Longrightarrow> 0 < w \<Longrightarrow> wrap g w = [g]"
  using wrap_append [of g w "[]"] by (simp add: wrap_Nil)

lemma bits_28_groups:
  "bits 28 x = bits 7 (x div 2 ^ 21) @ bits 7 (x div 2 ^ 14) @ bits 7 (x div 2 ^ 7) @ bits 7 x"
proof -
  have "bits 28 x = bits (21 + 7) x" by simp
  also have "\<dots> = bits 21 (x div 2 ^ 7) @ bits 7 x" by (rule bits_add)
  also have "bits 21 (x div 2 ^ 7) = bits (14 + 7) (x div 2 ^ 7)" by simp
  also have "\<dots> = bits 14 (x div 2 ^ 7 div 2 ^ 7) @ bits 7 (x div 2 ^ 7)" by (rule bits_add)
  also have "x div 2 ^ 7 div 2 ^ 7 = x div 2 ^ 14" by (simp add: div_mult2_eq)
  also have "bits 14 (x div 2 ^ 14) = bits (7 + 7) (x div 2 ^ 14)" by simp
  also have "\<dots> = bits 7 (x div 2 ^ 14 div 2 ^ 7) @ bits 7 (x div 2 ^ 14)" by (rule bits_add)
  also have "x div 2 ^ 14 div 2 ^ 7 = x div 2 ^ 21" by (simp add: div_mult2_eq)
  finally show ?thesis by simp
qed

lemma bits_8_low: "m < 128 \<Longrightarrow> bits 8 m = CHR ''0'' # bits 7 m"
proof -
  assume m: "m < 128"
  have "bits 8 m = bits (1 + 7) m" by simp
  also have "\<dots> = bits 1 (m div 2 ^ 7) @ bits 7 m" by (rule bits_add)
  also from m have "m div 2 ^ 7 = 0" by simp
  finally show ?thesis by (simp add: bits_zero)
qed

lemma word8_of_nat_low: "(word_of_nat (k * 256 + a) :: 8 word) = word_of_nat a"
  unfolding word_of_nat_eq_iff take_bit_eq_mod by simp

text \<open>The four bytes the writer computes for a size below \<open>2 ^ 28\<close>.\<close>

lemma encode_synchsafe_bytes:
  assumes x: "x < 2 ^ 28"
  shows "encode_synchsafe x =
    Inr [word_of_nat (x div 2 ^ 21 mod 128), word_of_nat (x div 2 ^ 14 mod 128),
         word_of_nat (x div 2 ^ 7 mod 128), word_of_nat (x mod 128)]"
proof -
  define a3 a2 a1 a0 where "a3 = x div 2 ^ 21 mod 128" and "a2 = x div 2 ^ 14 mod 128"
    and "a1 = x div 2 ^ 7 mod 128" and "a0 = x mod 128"
  have lt: "a3 < 128" "a2 < 128" "a1 < 128" "a0 < 128"
    by (simp_all add: a3_def a2_def a1_def a0_def)
  have fmt: "format_b 28 x = bits 28 x"
    using x by (simp add: format_b_bits)
  have w: "wrap (bits 28 x) 7 =
      [bits 7 (x div 2 ^ 21), bits 7 (x div 2 ^ 14), bits 7 (x div 2 ^ 7), bits 7 x]"
    unfolding bits_28_groups by (simp add: wrap_append wrap_single)
  let ?joined = "concat (map (\<lambda>byte. CHR ''0'' # byte) (wrap (format_b 28 x) 7))"
  have joined: "?joined = (CHR ''0'' # bits 7 (x div 2 ^ 21)) @ (CHR ''0'' # bits 7 (x div 2 ^ 14))
      @ (CHR ''0'' # bits 7 (x div 2 ^ 7)) @ (CHR ''0'' # bits 7 x)"
    by (simp add: fmt w)
  let ?v = "a3 * 16777216 + a2 * 65536 + a1 * 256 + a0"
  have bv: "bin_val ?joined = ?v"
    unfolding joined
    using bin_val_bits [of 7 "x div 2 ^ 21"] bin_val_bits [of 7 "x div 2 ^ 14"]
      bin_val_bits [of 7 "x div 2 ^ 7"] bin_val_bits [of 7 x]
    by (simp add: bin_val_append bin_val_Cons0 a3_def a2_def a1_def a0_def)
  have "list_all (\<lambda>c. c = CHR ''0'' \<or> c = CHR ''1'') ?joined"
    unfolding joined by (simp add: bits_binary)
  moreover have "?joined \<noteq> []"
    unfolding joined by simp
  ultimately have ib: "int_base2 ?joined = Inr ?v"
    using bv by (simp add: int_base2_bin_val)
  have small: "?v < 4294967296" using lt by simp
  have d3: "?v div 16777216 = a3" using lt by simp
  have d2: "?v div 65536 = a3 * 256 + a2" using lt by simp
  have d1: "?v div 256 = a3 * 65536 + a2 * 256 + a1" using lt by simp
  have up: "[0..<4] = [0, 1, 2, 3]" by (simp add: upt_rec)
  have w2: "(word_of_nat (a3 * 256 + a2) :: 8 word) = word_of_nat a2"
    by (rule word8_of_nat_low)
  have "a3 * 65536 + a2 * 256 + a1 = (a3 * 256 + a2) * 256 + a1" by simp
  then have w1: "(word_of_nat (a3 * 65536 + a2 * 256 + a1) :: 8 word) = word_of_nat a1"
    by (simp only: word8_of_nat_low)
  have "?v = (a3 * 65536 + a2 * 256 + a1) * 256 + a0" by simp
  then have w0: "(word_of_nat ?v :: 8 word) = word_of_nat a0"
    by (simp only: word8_of_nat_low)
  have "to_bytes ?v 4 = Inr [word_of_nat a3, word_of_nat a2, word_of_nat a1, word_of_nat a0]"
    using small by (simp add: to_bytes_def up d3 d2 d1 w2 w1 w0 del: of_nat_add of_nat_mult)
  then show ?thesis
    by (simp add: encode_synchsafe_def ib a3_def a2_def a1_def a0_def)
qed

lemma byte_group_digits:
  assumes "a < 128"
  shows "drop 1 (format_b 8 (unat (word_of_nat a :: 8 word))) = bits 7 a"
proof -
  from assms have u: "unat (word_of_nat a :: 8 word) = a"
    by (simp add: unsigned_of_nat take_bit_eq_mod)
  from assms have "format_b 8 a = bits 8 a"
    by (simp add: format_b_bits)
  with assms show ?thesis
    by (simp add: u bits_8_low)
qed

lemma word8_group_less: "(word_of_nat (m mod 128) :: 8 word) < 128"
proof -
  have "unat (word_of_nat (m mod 128) :: 8 word) = m mod 128"
    by (simp add: unsigned_of_nat take_bit_eq_mod)
  then have "unat (word_of_nat (m mod 128) :: 8 word) < unat (128 :: 8 word)"
    by simp
  then show ?thesis
    by (simp only: word_less_nat_alt)
qed

text \<open>The round trip, as a lemma that the proofs about the writer use too.\<close>

lemma synchsafe_round_trip_aux:
  assumes x: "x < 2 ^ 28"
  shows "\<exists>bs. encode_synchsafe x = Inr bs \<and> length bs = 4 \<and> list_all (\<lambda>b. b < 128) bs
            \<and> decode_synchsafe bs = Inr x"
proof -
  let ?bs = "[word_of_nat (x div 2 ^ 21 mod 128), word_of_nat (x div 2 ^ 14 mod 128),
         word_of_nat (x div 2 ^ 7 mod 128), word_of_nat (x mod 128)] :: 8 word list"
  have enc: "encode_synchsafe x = Inr ?bs"
    using x by (rule encode_synchsafe_bytes)
  have g: "\<And>m. drop 1 (format_b 8 (unat (word_of_nat (m mod 128) :: 8 word))) = bits 7 m"
  proof -
    fix m :: nat
    have "drop 1 (format_b 8 (unat (word_of_nat (m mod 128) :: 8 word))) = bits 7 (m mod 128)"
      by (rule byte_group_digits) simp
    also have "\<dots> = bits 7 m"
      using bits_mod [of 7 m] by simp
    finally show "drop 1 (format_b 8 (unat (word_of_nat (m mod 128) :: 8 word))) = bits 7 m" .
  qed
  have "decode_synchsafe ?bs = int_base2 (bits 28 x)"
    unfolding decode_synchsafe_def bits_28_groups by (simp only: list.map concat.simps g append_Nil2)
  also have "\<dots> = Inr (x mod 2 ^ 28)"
    by (rule int_base2_bits) simp
  also have "x mod 2 ^ 28 = x"
    using x by simp
  finally have dec: "decode_synchsafe ?bs = Inr x" .
  have "list_all (\<lambda>b. b < 128) ?bs"
    by (simp add: word8_group_less)
  with enc dec show ?thesis by simp
qed

text \<open>
  C1. For every \<open>x\<close> below \<open>2 ^ 28\<close> the encoder of the writer returns four bytes, each
  with its high bit zero, and the decoder of the parser reads \<open>x\<close> back from them.
\<close>

theorem synchsafe_round_trip:
  assumes x: "x < 2 ^ 28"
  shows "\<exists>bs. encode_synchsafe x = Inr bs \<and> length bs = 4 \<and> list_all (\<lambda>b. b < 128) bs
            \<and> decode_synchsafe bs = Inr x"
  using x by (rule synchsafe_round_trip_aux)

theorem synchsafe_round_trip_witness:
  "(100 :: nat) < 2 ^ 28 \<and> encode_synchsafe 100 = Inr [0, 0, 0, 100]
     \<and> decode_synchsafe [0, 0, 0, 100] = Inr 100"
proof -
  have h: "(100 :: nat) < 2 ^ 28" by simp
  have e: "encode_synchsafe 100 = Inr [0, 0, 0, 100]"
    using encode_synchsafe_bytes [OF h] by simp
  from synchsafe_round_trip [OF h] e have "decode_synchsafe [0, 0, 0, 100] = Inr 100"
    by simp
  with h e show ?thesis by simp
qed

section \<open>Properties of the parser loop\<close>

text \<open>One turn of the loop, case by case.\<close>

lemma read_frames_stop:
  "\<not> re_search_tag (frame_tag input_file) \<Longrightarrow>
     read_frames L p a input_file frs c s = (Inr frs, c, s)"
  unfolding frame_tag_def
  by (simp add: read_frames.simps [of L p a input_file frs c s])

lemma read_frames_skip:
  "re_search_tag (frame_tag input_file) \<Longrightarrow> frame_tag input_file \<notin> set p \<Longrightarrow>
     read_frames L p a input_file frs c s = read_frames L p a (next_frame input_file) frs c s"
  unfolding frame_tag_def next_frame_def frame_data_length_def
  by (simp only: read_frames.simps [of L p a input_file frs c s] Let_def if_True if_False simp_thms)

lemma read_frames_keep:
  "re_search_tag (frame_tag input_file) \<Longrightarrow> frame_tag input_file \<in> set p \<Longrightarrow>
     read_frames L p a input_file frs c s =
       (case decode_frame_data L (take 1 (frame_data_raw input_file) = [1]) (frame_data_raw input_file) of
          None \<Rightarrow> (Inl UnicodeDecodeError, c, s)
        | Some data_decoded \<Rightarrow>
            (case transcode L a (take 1 (frame_data_raw input_file) = [1])
                    (frame_data_raw input_file) data_decoded c s of
               (Inl e, c', s') \<Rightarrow> (Inl e, c', s')
             | (Inr data_encoded, c', s') \<Rightarrow>
                 read_frames L p a (next_frame input_file)
                   (frs @ [\<lparr>tag = frame_tag input_file, data_flags = take 2 (drop 8 input_file),
                             data = data_encoded,
                             data_was_converted = (take 1 (frame_data_raw input_file) = [1])\<rparr>])
                   c' s'))"
  unfolding frame_tag_def next_frame_def frame_data_length_def frame_data_raw_def
  by (simp only: read_frames.simps [of L p a input_file frs c s] Let_def if_True if_False simp_thms)

lemma valid_tag_nonempty: "re_search_tag (frame_tag input_file) \<Longrightarrow> input_file \<noteq> []"
  by (auto simp: re_search_tag_def frame_tag_def iso_decode_def)

lemma next_frame_shorter:
  "re_search_tag (frame_tag input_file) \<Longrightarrow> length (next_frame input_file) < length input_file"
  using valid_tag_nonempty [of input_file] by (simp add: next_frame_def)

lemma read_frames_preserved:
  "read_frames L p a input_file frs c s = (Inr out, c', s') \<Longrightarrow>
     list_all (\<lambda>f. tag f \<in> set p) frs \<Longrightarrow> list_all (\<lambda>f. tag f \<in> set p) out"
proof (induction "length input_file" arbitrary: input_file frs c s rule: less_induct)
  case less
  show ?case
  proof (cases "re_search_tag (frame_tag input_file)")
    case False
    with less.prems show ?thesis
      by (simp add: read_frames_stop)
  next
    case valid: True
    note shorter = next_frame_shorter [OF valid]
    show ?thesis
    proof (cases "frame_tag input_file \<in> set p")
      case False
      with valid less.prems(1)
      have "read_frames L p a (next_frame input_file) frs c s = (Inr out, c', s')"
        by (simp add: read_frames_skip)
      from less.hyps [OF shorter this less.prems(2)] show ?thesis .
    next
      case True
      from less.prems(1) obtain enc c1 s1 where
        rec: "read_frames L p a (next_frame input_file)
               (frs @ [\<lparr>tag = frame_tag input_file, data_flags = take 2 (drop 8 input_file),
                        data = enc,
                        data_was_converted = (take 1 (frame_data_raw input_file) = [1])\<rparr>])
               c1 s1 = (Inr out, c', s')"
        unfolding read_frames_keep [OF valid True]
        by (auto split: option.splits prod.splits sum.splits)
      from less.hyps [OF shorter rec] less.prems(2) True show ?thesis
        by simp
    qed
  qed
qed

section \<open>The size codec on bytes, the correction loop and the example file\<close>

lemma byte_digits: "drop 1 (format_b 8 (unat (b :: 8 word))) = bits 7 (unat b)"
proof -
  have lt: "unat b < 2 ^ 8"
    using unsigned_less [of b, where ?'a = nat] by simp
  then have "format_b 8 (unat b) = bits (1 + 7) (unat b)"
    by (simp add: format_b_bits)
  also have "\<dots> = bits 1 (unat b div 2 ^ 7) @ bits 7 (unat b)"
    by (rule bits_add)
  finally show ?thesis
    by simp
qed

lemma byte_digits_Suc: "drop (Suc 0) (format_b 8 (unat (b :: 8 word))) = bits 7 (unat b)"
  using byte_digits [of b] by simp

lemma decode_synchsafe_Nil: "decode_synchsafe [] = Inl ValueError"
  by (simp add: decode_synchsafe_def int_base2_def)

lemma decode_synchsafe_Cons:
  "\<exists>n. decode_synchsafe (b # bs) = Inr n"
proof -
  let ?s = "concat (map (\<lambda>byte. bits 7 (unat byte)) (b # bs))"
  have "list_all (\<lambda>c. c = CHR ''0'' \<or> c = CHR ''1'') (concat (map (\<lambda>byte. bits 7 (unat byte)) cs))" for cs :: bytes
    by (induction cs) (simp_all add: bits_binary)
  moreover have "?s \<noteq> []"
    using length_bits [of 7 "unat b"] by (auto simp del: length_bits)
  ultimately have "int_base2 ?s = Inr (bin_val ?s)"
    by (intro int_base2_bin_val)
  then show ?thesis
    by (auto simp: decode_synchsafe_def byte_digits_Suc)
qed

lemma decode_synchsafe_four:
  "decode_synchsafe [b3, b2, b1, b0] =
     Inr (unat b3 mod 128 * 2097152 + unat b2 mod 128 * 16384 + unat b1 mod 128 * 128
          + unat b0 mod 128)"
proof -
  let ?s = "bits 7 (unat b3) @ bits 7 (unat b2) @ bits 7 (unat b1) @ bits 7 (unat b0)"
  have "list_all (\<lambda>c. c = CHR ''0'' \<or> c = CHR ''1'') ?s"
    by (simp add: bits_binary)
  moreover have "?s \<noteq> []"
    using length_bits [of 7 "unat b3"] by (auto simp del: length_bits)
  ultimately have "int_base2 ?s = Inr (bin_val ?s)"
    by (intro int_base2_bin_val)
  moreover have "bin_val ?s = unat b3 mod 128 * 2097152 + unat b2 mod 128 * 16384
      + unat b1 mod 128 * 128 + unat b0 mod 128"
    by (simp add: bin_val_append bin_val_bits)
  ultimately show ?thesis
    by (simp add: decode_synchsafe_def byte_digits_Suc)
qed

lemma correction_loop_valid:
  "validate_data_encode L alt \<Longrightarrow> correction_loop L a d alt c s = (encode_data L alt, c, s)"
  by (subst correction_loop.simps) simp

lemma correction_loop_fatal:
  "\<not> validate_data_encode L alt \<Longrightarrow> snd (identify_encode_error_positions L alt) = Inl e \<Longrightarrow>
     correction_loop L a d alt c s = (Inl e, c, s)"
  by (subst correction_loop.simps) simp

lemma correction_loop_automatic:
  "\<not> validate_data_encode L alt \<Longrightarrow> snd (identify_encode_error_positions L alt) = Inr ps \<Longrightarrow>
     correction_loop L True d alt c s = accept_correction L d (suggest_data_changes L alt ps) c s"
  by (subst correction_loop.simps) simp

lemma correction_loop_eof:
  "\<not> validate_data_encode L alt \<Longrightarrow> snd (identify_encode_error_positions L alt) = Inr ps \<Longrightarrow>
     correction_loop L False d alt c [] = (Inl EOFError, c, [])"
  by (subst correction_loop.simps) simp

lemma correction_loop_manual:
  "\<not> validate_data_encode L alt \<Longrightarrow> snd (identify_encode_error_positions L alt) = Inr ps \<Longrightarrow>
     correction_loop L False d alt c (line # s) =
       (if strip line = [] then accept_correction L d (suggest_data_changes L alt ps) c s
        else if validate_data_encode L (strip line) then accept_correction L d (strip line) c s
        else correction_loop L False d (strip line) c s)"
  by (subst correction_loop.simps) simp


lemmas frame_field_defs =
  frame_tag_def frame_data_length_def frame_data_raw_def next_frame_def iso_decode_def
  from_bytes_def re_search_tag_def tag_char_def example_tags_def ustr_of_def

lemma example_identify:
  "identify_encode_error_positions demo_libs [99, 97, 102, 233] = ([], Inr [3])"
  by (simp add: identify_encode_error_positions_def demo_libs_def demo_sjis_encode_def)

lemma example_correction:
  "correction_loop demo_libs True [99, 97, 102, 233] [99, 97, 102, 233] Map.empty s =
    (Inr [0, 99, 97, 102, 101, 0], [[99, 97, 102, 233] \<mapsto> [99, 97, 102, 101]], s)"
proof -
  have nv: "\<not> validate_data_encode demo_libs [99, 97, 102, 233]"
    by (simp add: validate_data_encode_def encode_data_def demo_libs_def demo_sjis_encode_def)
  have ps: "snd (identify_encode_error_positions demo_libs [99, 97, 102, 233]) = Inr [3]"
    by (simp add: example_identify)
  have sg: "suggest_data_changes demo_libs [99, 97, 102, 233] [3] = [99, 97, 102, 101]"
    by (simp add: suggest_data_changes_def demo_libs_def demo_unidecode_def ustr_of_def)
  show ?thesis
    unfolding correction_loop_automatic [OF nv ps] sg
    by (simp add: accept_correction_def encode_data_def demo_libs_def demo_sjis_encode_def)
qed

lemma example_utf16:
  "demo_utf16_decode [255, 254, 99, 0, 97, 0, 102, 0, 233, 0] = Some [99, 97, 102, 233]"
  by (simp add: demo_utf16_decode_def)

lemma example_frames_stop:
  "read_frames L example_tags a [84, 33, 84, 50, 0, 0, 0, 0, 0, 0, 255, 251, 144, 0] frs c s
     = (Inr frs, c, s)"
  by (rule read_frames_stop) (simp add: frame_field_defs)

lemma example_frames_1234:
  "read_frames L example_tags a
     [49, 50, 51, 52, 0, 0, 0, 3, 0, 0, 0, 66, 0,
      84, 33, 84, 50, 0, 0, 0, 0, 0, 0, 255, 251, 144, 0] frs c s
   = (Inr (frs @ [\<lparr>tag = ustr_of ''1234'', data_flags = [0, 0], data = [0, 66, 0],
                    data_was_converted = False\<rparr>]), c, s)"
proof -
  let ?f = "[49, 50, 51, 52, 0, 0, 0, 3, 0, 0, 0, 66, 0,
      84, 33, 84, 50, 0, 0, 0, 0, 0, 0, 255, 251, 144, 0] :: bytes"
  have v: "re_search_tag (frame_tag ?f)" by (simp add: frame_field_defs)
  have m: "frame_tag ?f \<in> set example_tags" by (simp add: frame_field_defs)
  show ?thesis
    unfolding read_frames_keep [OF v m]
    by (simp add: frame_field_defs decode_frame_data_def transcode_def example_frames_stop [unfolded example_tags_def ustr_of_def, simplified])
qed


lemma example_frames_COMM:
  "read_frames L example_tags a
     [67, 79, 77, 77, 0, 0, 0, 3, 0, 0, 0, 65, 0,
      49, 50, 51, 52, 0, 0, 0, 3, 0, 0, 0, 66, 0,
      84, 33, 84, 50, 0, 0, 0, 0, 0, 0, 255, 251, 144, 0] frs c s
   = (Inr (frs @ [\<lparr>tag = ustr_of ''1234'', data_flags = [0, 0], data = [0, 66, 0],
                    data_was_converted = False\<rparr>]), c, s)"
proof -
  let ?f = "[67, 79, 77, 77, 0, 0, 0, 3, 0, 0, 0, 65, 0,
      49, 50, 51, 52, 0, 0, 0, 3, 0, 0, 0, 66, 0,
      84, 33, 84, 50, 0, 0, 0, 0, 0, 0, 255, 251, 144, 0] :: bytes"
  have v: "re_search_tag (frame_tag ?f)" by (simp add: frame_field_defs)
  have m: "frame_tag ?f \<notin> set example_tags" by (simp add: frame_field_defs)
  have n: "next_frame ?f = [49, 50, 51, 52, 0, 0, 0, 3, 0, 0, 0, 66, 0,
      84, 33, 84, 50, 0, 0, 0, 0, 0, 0, 255, 251, 144, 0]"
    by (simp add: frame_field_defs)
  show ?thesis
    unfolding read_frames_skip [OF v m] n by (rule example_frames_1234)
qed

lemma example_frames:
  "read_frames demo_libs example_tags True (drop 10 example_file) [] Map.empty s
   = (Inr (frames example_container), [[99, 97, 102, 233] \<mapsto> [99, 97, 102, 101]], s)"
proof -
  let ?f = "[84, 73, 84, 50, 0, 0, 0, 13, 0, 0, 1, 255, 254, 99, 0, 97, 0, 102, 0, 233, 0, 0, 0,
      67, 79, 77, 77, 0, 0, 0, 3, 0, 0, 0, 65, 0,
      49, 50, 51, 52, 0, 0, 0, 3, 0, 0, 0, 66, 0,
      84, 33, 84, 50, 0, 0, 0, 0, 0, 0, 255, 251, 144, 0] :: bytes"
  have f: "drop 10 example_file = ?f" by (simp add: example_file_def)
  have v: "re_search_tag (frame_tag ?f)" by (simp add: frame_field_defs)
  have m: "frame_tag ?f \<in> set example_tags" by (simp add: frame_field_defs)
  have r: "frame_data_raw ?f = [1, 255, 254, 99, 0, 97, 0, 102, 0, 233, 0, 0, 0]"
    by (simp add: frame_field_defs)
  have n: "next_frame ?f = [67, 79, 77, 77, 0, 0, 0, 3, 0, 0, 0, 65, 0,
      49, 50, 51, 52, 0, 0, 0, 3, 0, 0, 0, 66, 0,
      84, 33, 84, 50, 0, 0, 0, 0, 0, 0, 255, 251, 144, 0]"
    by (simp add: frame_field_defs)
  have d: "decode_frame_data demo_libs True [1, 255, 254, 99, 0, 97, 0, 102, 0, 233, 0, 0, 0]
      = Some [99, 97, 102, 233]"
    by (simp add: decode_frame_data_def demo_libs_def example_utf16)
  have t: "transcode demo_libs True True [1, 255, 254, 99, 0, 97, 0, 102, 0, 233, 0, 0, 0]
      [99, 97, 102, 233] Map.empty s =
      (Inr [0, 99, 97, 102, 101, 0], [[99, 97, 102, 233] \<mapsto> [99, 97, 102, 101]], s)"
    by (simp add: transcode_def example_correction)
  show ?thesis
    unfolding f read_frames_keep [OF v m] r n
    by (simp add: d t example_frames_COMM example_container_def frame_tag_def iso_decode_def
        ustr_of_def)
qed

lemma example_read:
  "read_id3 demo_libs example_file example_tags True Map.empty s =
     (Inr example_container, [[99, 97, 102, 233] \<mapsto> [99, 97, 102, 101]], s)"
proof -
  have h: "take 4 (drop 6 (take 10 example_file)) = [0, 0, 0, 59]"
    by (simp add: example_file_def)
  have i: "iso_decode (take 3 example_file) = ustr_of ''ID3''"
    by (simp add: example_file_def iso_decode_def ustr_of_def)
  have k: "take 6 example_file = [73, 68, 51, 4, 0, 0]" "length example_file = 73"
    by (simp_all add: example_file_def)
  show ?thesis
    by (simp add: read_id3_def Let_def h i k decode_synchsafe_four example_frames
        example_container_def)
qed

section \<open>The claims about the parser\<close>

text \<open>
  C5. Every frame of a container that \<^verbatim>\<open>read_id3\<close> returns carries an identifier of
  the preservation set. A frame record whose identifier is valid but not in the set adds
  nothing, whatever its flags and data: the loop goes on from the bytes after it with the
  same frames, cache and standard input.
\<close>

theorem preservation_filter:
  "(read_id3 L input_file preserved_tags a c s = (Inr d, c', s') \<longrightarrow>
      list_all (\<lambda>f. tag f \<in> set preserved_tags) (frames d))
   \<and> (re_search_tag (frame_tag rest) \<and> frame_tag rest \<notin> set preserved_tags \<longrightarrow>
        read_frames L preserved_tags a rest frs c s =
        read_frames L preserved_tags a (next_frame rest) frs c s)"
proof (intro conjI impI)
  assume r: "read_id3 L input_file preserved_tags a c s = (Inr d, c', s')"
  then obtain out where
    rf: "read_frames L preserved_tags a (drop 10 input_file) [] c s = (Inr out, c', s')"
    and d: "frames d = out"
    by (auto simp: read_id3_def Let_def split: sum.splits if_splits prod.splits)
  from read_frames_preserved [OF rf] d
  show "list_all (\<lambda>f. tag f \<in> set preserved_tags) (frames d)"
    by simp
next
  assume "re_search_tag (frame_tag rest) \<and> frame_tag rest \<notin> set preserved_tags"
  then show "read_frames L preserved_tags a rest frs c s =
        read_frames L preserved_tags a (next_frame rest) frs c s"
    by (simp add: read_frames_skip)
qed

theorem preservation_filter_witness:
  "read_id3 demo_libs example_file example_tags True Map.empty [] =
     (Inr example_container, [[99, 97, 102, 233] \<mapsto> [99, 97, 102, 101]], [])
   \<and> list_all (\<lambda>f. tag f \<in> set example_tags) (frames example_container)
   \<and> re_search_tag (frame_tag [67, 79, 77, 77, 0, 0, 0, 3, 0, 0, 0, 65, 0])
   \<and> frame_tag [67, 79, 77, 77, 0, 0, 0, 3, 0, 0, 0, 65, 0] \<notin> set example_tags
   \<and> read_frames demo_libs example_tags True [67, 79, 77, 77, 0, 0, 0, 3, 0, 0, 0, 65, 0]
        [] Map.empty [] = (Inr [], Map.empty, [])"
proof -
  note r = example_read [of "[]"]
  have v: "re_search_tag (frame_tag [67, 79, 77, 77, 0, 0, 0, 3, 0, 0, 0, 65, 0])"
    and m: "frame_tag [67, 79, 77, 77, 0, 0, 0, 3, 0, 0, 0, 65, 0] \<notin> set example_tags"
    and n: "next_frame [67, 79, 77, 77, 0, 0, 0, 3, 0, 0, 0, 65, 0] = []"
    by (simp_all add: frame_field_defs)
  have e: "read_frames demo_libs example_tags True [] [] Map.empty [] = (Inr [], Map.empty, [])"
    by (rule read_frames_stop) (simp add: frame_field_defs)
  from preservation_filter [where L = demo_libs and input_file = example_file
      and preserved_tags = example_tags and a = True and c = Map.empty and s = "[]"
      and d = example_container and c' = "[[99, 97, 102, 233] \<mapsto> [99, 97, 102, 101]]"
      and s' = "[]" and rest = "[67, 79, 77, 77, 0, 0, 0, 3, 0, 0, 0, 65, 0]" and frs = "[]"]
    r v m n e
  show ?thesis by simp
qed

lemma record_tags_stop: "\<not> re_search_tag (frame_tag input_file) \<Longrightarrow> record_tags input_file = []"
  by (simp add: record_tags.simps [of input_file])

lemma record_tags_step:
  "re_search_tag (frame_tag input_file) \<Longrightarrow>
     record_tags input_file = frame_tag input_file # record_tags (next_frame input_file)"
  by (simp add: record_tags.simps [of input_file])

lemma record_tags_valid: "list_all re_search_tag (record_tags input_file)"
proof (induction "length input_file" arbitrary: input_file rule: less_induct)
  case less
  show ?case
  proof (cases "re_search_tag (frame_tag input_file)")
    case False
    then show ?thesis by (simp add: record_tags_stop)
  next
    case True
    from less.hyps [OF next_frame_shorter [OF True]] True show ?thesis
      by (simp add: record_tags_step)
  qed
qed

text \<open>
  The loop against the specification: a list of frames that the loop returns is the list
  it was started with, followed by one frame for each preserved record up to the first
  identifier that does not match, in the order of the file.
\<close>

lemma read_frames_tags:
  "read_frames L p a input_file frs c s = (Inr out, c', s') \<Longrightarrow>
     \<exists>more. out = frs @ more
        \<and> map tag more = filter (\<lambda>t. t \<in> set p) (record_tags input_file)"
proof (induction "length input_file" arbitrary: input_file frs c s rule: less_induct)
  case less
  show ?case
  proof (cases "re_search_tag (frame_tag input_file)")
    case False
    with less.prems show ?thesis
      by (simp add: read_frames_stop record_tags_stop)
  next
    case valid: True
    note shorter = next_frame_shorter [OF valid]
    show ?thesis
    proof (cases "frame_tag input_file \<in> set p")
      case False
      with valid less.prems
      have "read_frames L p a (next_frame input_file) frs c s = (Inr out, c', s')"
        by (simp add: read_frames_skip)
      from less.hyps [OF shorter this] valid False show ?thesis
        by (simp add: record_tags_step)
    next
      case True
      from less.prems obtain enc c1 s1 where
        rec: "read_frames L p a (next_frame input_file)
               (frs @ [\<lparr>tag = frame_tag input_file, data_flags = take 2 (drop 8 input_file),
                        data = enc,
                        data_was_converted = (take 1 (frame_data_raw input_file) = [1])\<rparr>])
               c1 s1 = (Inr out, c', s')"
        unfolding read_frames_keep [OF valid True]
        by (auto split: option.splits prod.splits sum.splits)
      from less.hyps [OF shorter rec] obtain more where
        o: "out = (frs @ [\<lparr>tag = frame_tag input_file, data_flags = take 2 (drop 8 input_file),
                        data = enc,
                        data_was_converted = (take 1 (frame_data_raw input_file) = [1])\<rparr>]) @ more"
        and m: "map tag more = filter (\<lambda>t. t \<in> set p) (record_tags (next_frame input_file))"
        by blast
      from o m valid True show ?thesis
        by (intro exI [of _ "\<lparr>tag = frame_tag input_file, data_flags = take 2 (drop 8 input_file),
                        data = enc,
                        data_was_converted = (take 1 (frame_data_raw input_file) = [1])\<rparr> # more"])
          (simp add: record_tags_step)
    qed
  qed
qed

lemma example_record_tags:
  "record_tags (drop 10 example_file) = [ustr_of ''TIT2'', ustr_of ''COMM'', ustr_of ''1234'']"
proof -
  let ?stop = "[84, 33, 84, 50, 0, 0, 0, 0, 0, 0, 255, 251, 144, 0] :: bytes"
  let ?one = "[49, 50, 51, 52, 0, 0, 0, 3, 0, 0, 0, 66, 0] @ ?stop"
  let ?two = "[67, 79, 77, 77, 0, 0, 0, 3, 0, 0, 0, 65, 0] @ ?one"
  let ?three = "[84, 73, 84, 50, 0, 0, 0, 13, 0, 0, 1, 255, 254, 99, 0, 97, 0, 102, 0, 233, 0, 0, 0]
      @ ?two"
  have a: "record_tags ?stop = []"
    by (rule record_tags_stop) (simp add: frame_field_defs)
  have b: "record_tags ?one = [ustr_of ''1234'']"
    by (subst record_tags_step) (simp_all add: frame_field_defs a)
  have c: "record_tags ?two = [ustr_of ''COMM'', ustr_of ''1234'']"
    by (subst record_tags_step) (simp_all add: frame_field_defs b [simplified])
  have d: "record_tags ?three = [ustr_of ''TIT2'', ustr_of ''COMM'', ustr_of ''1234'']"
    by (subst record_tags_step) (simp_all add: frame_field_defs c [simplified])
  have "drop 10 example_file = ?three"
    by (simp add: example_file_def)
  with d show ?thesis by simp
qed

text \<open>
  C6. When the identifier of a frame record does not match the pattern, the loop returns
  the frames collected so far, with no exception. When it matches, the loop does not
  return at this record: it goes on with the record after it, with the same frames when
  the identifier is not preserved and with one more frame of this identifier when it is.
  So the frames of a returned container are those of the preserved records up to the
  first identifier that does not match, and of no record after it. A record \<^verbatim>\<open>T!T2\<close>
  ends the loop with the frames collected so far; a preserved record \<^verbatim>\<open>1234\<close> is a frame
  of every container returned.
\<close>

theorem frame_iteration_termination:
  "(\<not> re_search_tag (frame_tag rest) \<longrightarrow>
      read_frames L p a rest frs c s = (Inr frs, c, s))
   \<and> (re_search_tag (frame_tag rest) \<and> frame_tag rest \<notin> set p \<longrightarrow>
        read_frames L p a rest frs c s = read_frames L p a (next_frame rest) frs c s)
   \<and> (re_search_tag (frame_tag rest) \<and> frame_tag rest \<in> set p
        \<and> read_frames L p a rest frs c s = (Inr out, c', s') \<longrightarrow>
        (\<exists>fr cache stdin. tag fr = frame_tag rest
           \<and> read_frames L p a (next_frame rest) (frs @ [fr]) cache stdin = (Inr out, c', s')))
   \<and> (read_frames L p a rest frs c s = (Inr out, c', s') \<longrightarrow>
        (\<exists>more. out = frs @ more
           \<and> map tag more = filter (\<lambda>t. t \<in> set p) (record_tags rest)))
   \<and> (read_id3 L input_file p a c s = (Inr d, c', s') \<longrightarrow>
        map tag (frames d) = filter (\<lambda>t. t \<in> set p) (record_tags (drop 10 input_file)))
   \<and> (frame_tag rest = ustr_of ''T!T2'' \<longrightarrow>
        read_frames L p a rest frs c s = (Inr frs, c, s))
   \<and> (frame_tag rest = ustr_of ''1234'' \<and> ustr_of ''1234'' \<in> set p
        \<and> read_frames L p a rest frs c s = (Inr out, c', s') \<longrightarrow>
        (\<exists>fr more. out = frs @ fr # more \<and> tag fr = ustr_of ''1234''))
   \<and> re_search_tag (ustr_of ''1234'') \<and> \<not> re_search_tag (ustr_of ''T!T2'')"
proof (intro conjI impI)
  assume "\<not> re_search_tag (frame_tag rest)"
  then show "read_frames L p a rest frs c s = (Inr frs, c, s)"
    by (rule read_frames_stop)
next
  assume "re_search_tag (frame_tag rest) \<and> frame_tag rest \<notin> set p"
  then show "read_frames L p a rest frs c s = read_frames L p a (next_frame rest) frs c s"
    by (simp add: read_frames_skip)
next
  assume h: "re_search_tag (frame_tag rest) \<and> frame_tag rest \<in> set p
        \<and> read_frames L p a rest frs c s = (Inr out, c', s')"
  then have v: "re_search_tag (frame_tag rest)" and m: "frame_tag rest \<in> set p"
    and r: "read_frames L p a rest frs c s = (Inr out, c', s')"
    by simp_all
  from r obtain enc c1 s1 where
    "read_frames L p a (next_frame rest)
       (frs @ [\<lparr>tag = frame_tag rest, data_flags = take 2 (drop 8 rest), data = enc,
                data_was_converted = (take 1 (frame_data_raw rest) = [1])\<rparr>])
       c1 s1 = (Inr out, c', s')"
    unfolding read_frames_keep [OF v m]
    by (auto split: option.splits prod.splits sum.splits)
  then show "\<exists>fr cache stdin. tag fr = frame_tag rest
           \<and> read_frames L p a (next_frame rest) (frs @ [fr]) cache stdin = (Inr out, c', s')"
    by (intro exI [of _ "\<lparr>tag = frame_tag rest, data_flags = take 2 (drop 8 rest), data = enc,
                data_was_converted = (take 1 (frame_data_raw rest) = [1])\<rparr>"]
        exI [of _ c1] exI [of _ s1]) simp
next
  assume "read_frames L p a rest frs c s = (Inr out, c', s')"
  then show "\<exists>more. out = frs @ more
           \<and> map tag more = filter (\<lambda>t. t \<in> set p) (record_tags rest)"
    by (rule read_frames_tags)
next
  assume r: "read_id3 L input_file p a c s = (Inr d, c', s')"
  then have "read_frames L p a (drop 10 input_file) [] c s = (Inr (frames d), c', s')"
    by (auto simp: read_id3_def Let_def split: sum.splits if_splits prod.splits)
  from read_frames_tags [OF this]
  show "map tag (frames d) = filter (\<lambda>t. t \<in> set p) (record_tags (drop 10 input_file))"
    by simp
next
  assume "frame_tag rest = ustr_of ''T!T2''"
  then have "\<not> re_search_tag (frame_tag rest)"
    by (simp add: re_search_tag_def tag_char_def ustr_of_def)
  then show "read_frames L p a rest frs c s = (Inr frs, c, s)"
    by (rule read_frames_stop)
next
  assume h: "frame_tag rest = ustr_of ''1234'' \<and> ustr_of ''1234'' \<in> set p
        \<and> read_frames L p a rest frs c s = (Inr out, c', s')"
  then have t: "frame_tag rest = ustr_of ''1234''" and m: "ustr_of ''1234'' \<in> set p"
    and r: "read_frames L p a rest frs c s = (Inr out, c', s')"
    by simp_all
  have "re_search_tag (ustr_of ''1234'')"
    by (simp add: re_search_tag_def tag_char_def ustr_of_def)
  with t have v: "re_search_tag (frame_tag rest)"
    by simp
  from read_frames_tags [OF r] obtain more where
    o: "out = frs @ more"
    and g: "map tag more = filter (\<lambda>t. t \<in> set p) (record_tags rest)"
    by blast
  from g m t have "map tag more = ustr_of ''1234''
      # filter (\<lambda>t. t \<in> set p) (record_tags (next_frame rest))"
    by (simp add: record_tags_step [OF v])
  then obtain fr more' where "more = fr # more'" "tag fr = ustr_of ''1234''"
    by (cases more) auto
  with o show "\<exists>fr more. out = frs @ fr # more \<and> tag fr = ustr_of ''1234''"
    by blast
next
  show "re_search_tag (ustr_of ''1234'')"
    by (simp add: re_search_tag_def tag_char_def ustr_of_def)
next
  show "\<not> re_search_tag (ustr_of ''T!T2'')"
    by (simp add: re_search_tag_def tag_char_def ustr_of_def)
qed

theorem frame_iteration_termination_witness:
  "frame_tag [84, 33, 84, 50, 0, 0, 0, 0, 0, 0, 255, 251, 144, 0] = ustr_of ''T!T2''
   \<and> \<not> re_search_tag (frame_tag [84, 33, 84, 50, 0, 0, 0, 0, 0, 0, 255, 251, 144, 0])
   \<and> read_frames demo_libs example_tags True
        [84, 33, 84, 50, 0, 0, 0, 0, 0, 0, 255, 251, 144, 0] (frames example_container)
        Map.empty [] = (Inr (frames example_container), Map.empty, [])
   \<and> re_search_tag (frame_tag [67, 79, 77, 77, 0, 0, 0, 3, 0, 0, 0, 65, 0, 84, 33, 84, 50])
   \<and> frame_tag [67, 79, 77, 77, 0, 0, 0, 3, 0, 0, 0, 65, 0, 84, 33, 84, 50] \<notin> set example_tags
   \<and> read_frames demo_libs example_tags True
        [67, 79, 77, 77, 0, 0, 0, 3, 0, 0, 0, 65, 0, 84, 33, 84, 50] (frames example_container)
        Map.empty [] = (Inr (frames example_container), Map.empty, [])
   \<and> frame_tag [49, 50, 51, 52, 0, 0, 0, 3, 0, 0, 0, 66, 0, 84, 33, 84, 50] = ustr_of ''1234''
   \<and> frame_tag [49, 50, 51, 52, 0, 0, 0, 3, 0, 0, 0, 66, 0, 84, 33, 84, 50] \<in> set example_tags
   \<and> read_frames demo_libs example_tags True
        [49, 50, 51, 52, 0, 0, 0, 3, 0, 0, 0, 66, 0, 84, 33, 84, 50] [] Map.empty []
      = (Inr [\<lparr>tag = ustr_of ''1234'', data_flags = [0, 0], data = [0, 66, 0],
               data_was_converted = False\<rparr>], Map.empty, [])
   \<and> (\<exists>fr cache stdin. tag fr = ustr_of ''1234''
        \<and> read_frames demo_libs example_tags True [84, 33, 84, 50] ([] @ [fr]) cache stdin
           = (Inr [\<lparr>tag = ustr_of ''1234'', data_flags = [0, 0], data = [0, 66, 0],
                    data_was_converted = False\<rparr>], Map.empty, []))
   \<and> read_id3 demo_libs example_file example_tags True Map.empty [] =
       (Inr example_container, [[99, 97, 102, 233] \<mapsto> [99, 97, 102, 101]], [])
   \<and> record_tags (drop 10 example_file) = [ustr_of ''TIT2'', ustr_of ''COMM'', ustr_of ''1234'']
   \<and> map tag (frames example_container) = [ustr_of ''TIT2'', ustr_of ''1234'']"
proof -
  let ?stop = "[84, 33, 84, 50, 0, 0, 0, 0, 0, 0, 255, 251, 144, 0] :: bytes"
  let ?skip = "[67, 79, 77, 77, 0, 0, 0, 3, 0, 0, 0, 65, 0, 84, 33, 84, 50] :: bytes"
  let ?one = "[49, 50, 51, 52, 0, 0, 0, 3, 0, 0, 0, 66, 0, 84, 33, 84, 50] :: bytes"
  let ?fr = "\<lparr>tag = ustr_of ''1234'', data_flags = [0, 0], data = [0, 66, 0],
               data_was_converted = False\<rparr>"
  have ts: "frame_tag ?stop = ustr_of ''T!T2''"
    by (simp add: frame_field_defs)
  have ns: "\<not> re_search_tag (frame_tag ?stop)"
    by (simp add: frame_field_defs)
  have vk: "re_search_tag (frame_tag ?skip)" and mk: "frame_tag ?skip \<notin> set example_tags"
    and nk: "next_frame ?skip = [84, 33, 84, 50]"
    by (simp_all add: frame_field_defs)
  have v: "re_search_tag (frame_tag ?one)" and m: "frame_tag ?one \<in> set example_tags"
    and t: "frame_tag ?one = ustr_of ''1234''"
    and n: "next_frame ?one = [84, 33, 84, 50]"
    by (simp_all add: frame_field_defs)
  have ns2: "\<not> re_search_tag (frame_tag [84, 33, 84, 50])"
    by (simp add: frame_field_defs)
  have one: "read_frames demo_libs example_tags True ?one [] Map.empty [] = (Inr [?fr], Map.empty, [])"
    unfolding read_frames_keep [OF v m] n
    by (simp add: frame_field_defs decode_frame_data_def transcode_def
        read_frames_stop [OF ns2, unfolded example_tags_def ustr_of_def, simplified])
  from frame_iteration_termination [where rest = ?stop and L = demo_libs and p = example_tags
      and a = True and frs = "frames example_container" and c = Map.empty and s = "[]"] ts
  have a: "read_frames demo_libs example_tags True ?stop (frames example_container) Map.empty []
      = (Inr (frames example_container), Map.empty, [])"
    by blast
  from frame_iteration_termination [where rest = ?skip and L = demo_libs and p = example_tags
      and a = True and frs = "frames example_container" and c = Map.empty and s = "[]"] vk mk
  have "read_frames demo_libs example_tags True ?skip (frames example_container) Map.empty []
      = read_frames demo_libs example_tags True (next_frame ?skip) (frames example_container)
          Map.empty []"
    by blast
  then have k: "read_frames demo_libs example_tags True ?skip (frames example_container) Map.empty []
      = (Inr (frames example_container), Map.empty, [])"
    unfolding nk by (simp add: read_frames_stop [OF ns2])
  from frame_iteration_termination [where rest = ?one and L = demo_libs and p = example_tags
      and a = True and frs = "[]" and c = Map.empty and s = "[]" and out = "[?fr]"
      and c' = Map.empty and s' = "[]"] v m one
  have "\<exists>fr cache stdin. tag fr = frame_tag ?one
        \<and> read_frames demo_libs example_tags True (next_frame ?one) ([] @ [fr]) cache stdin
           = (Inr [?fr], Map.empty, [])"
    by blast
  then have b: "\<exists>fr cache stdin. tag fr = ustr_of ''1234''
        \<and> read_frames demo_libs example_tags True [84, 33, 84, 50] ([] @ [fr]) cache stdin
           = (Inr [?fr], Map.empty, [])"
    unfolding n t .
  note r = example_read [of "[]"]
  from frame_iteration_termination [where input_file = example_file and L = demo_libs
      and p = example_tags and a = True and c = Map.empty and s = "[]" and d = example_container
      and c' = "[[99, 97, 102, 233] \<mapsto> [99, 97, 102, 101]]" and s' = "[]"] r
  have "map tag (frames example_container)
      = filter (\<lambda>t. t \<in> set example_tags) (record_tags (drop 10 example_file))"
    by blast
  then have g: "map tag (frames example_container) = [ustr_of ''TIT2'', ustr_of ''1234'']"
    by (simp add: example_record_tags example_tags_def ustr_of_def)
  from ts ns a vk mk k t m one b r example_record_tags g show ?thesis
    by blast
qed

text \<open>
  What \<^verbatim>\<open>read_id3\<close> does when the first three bytes do not decode to \<^verbatim>\<open>ID3\<close>: it never
  returns a container; with at least seven bytes in the file the exception is the
  TypeError of line 147, with fewer it is the ValueError of line 131.
\<close>

lemma read_id3_bad_magic:
  assumes "iso_decode (take 3 input_file) \<noteq> ustr_of ''ID3''"
  shows "(\<exists>e. fst (read_id3 L input_file p a c s) = Inl e)
     \<and> (7 \<le> length input_file \<longrightarrow>
          read_id3 L input_file p a c s = (Inl TypeError, c, s))"
proof -
  define enc where "enc = take 4 (drop 6 (take 10 input_file))"
  from assms have m: "iso_decode (take 3 (take 10 input_file)) \<noteq> ustr_of ''ID3''"
    by simp
  have r: "read_id3 L input_file p a c s =
      (case decode_synchsafe enc of
         Inl e \<Rightarrow> (Inl e, c, s)
       | Inr n \<Rightarrow> (Inl TypeError, c, s))"
    unfolding read_id3_def Let_def enc_def [symmetric] using m
    by (simp split: sum.splits)
  show ?thesis
  proof (cases enc)
    case Nil
    then have "\<not> 7 \<le> length input_file"
      by (auto simp: enc_def)
    with Nil r show ?thesis
      by (simp add: decode_synchsafe_Nil)
  next
    case (Cons b bs)
    from decode_synchsafe_Cons [of b bs] obtain n where "decode_synchsafe (b # bs) = Inr n"
      by blast
    with Cons r show ?thesis
      by simp
  qed
qed

text \<open>
  C8. The code does not do what the claim says: no input makes it fail with an error of
  its own for an invalid container. On a file shorter than seven bytes the size is
  decoded (line 131) before the identifier is compared (line 146), and \<^verbatim>\<open>int("", 2)\<close>
  raises ValueError. On a longer file with a wrong identifier line 147 raises a \<^verbatim>\<open>str\<close>,
  which is a TypeError. Both inputs below have a wrong identifier.
\<close>

theorem invalid_magic_wrong_exception:
  "iso_decode (take 3 [255, 251, 144]) \<noteq> ustr_of ''ID3''
   \<and> read_id3 demo_libs [255, 251, 144] example_tags True Map.empty []
       = (Inl ValueError, Map.empty, [])
   \<and> iso_decode (take 3 [88, 68, 51, 4, 0, 0, 0, 0, 0, 59]) \<noteq> ustr_of ''ID3''
   \<and> read_id3 demo_libs [88, 68, 51, 4, 0, 0, 0, 0, 0, 59] example_tags True Map.empty []
       = (Inl TypeError, Map.empty, [])"
proof -
  have h: "iso_decode (take 3 [88, 68, 51, 4, 0, 0, 0, 0, 0, 59]) \<noteq> ustr_of ''ID3''"
    by (simp add: iso_decode_def ustr_of_def)
  from read_id3_bad_magic [OF h, of demo_libs example_tags True Map.empty "[]"]
  have "read_id3 demo_libs [88, 68, 51, 4, 0, 0, 0, 0, 0, 59] example_tags True Map.empty []
       = (Inl TypeError, Map.empty, [])"
    by simp
  with h show ?thesis
    by (simp add: iso_decode_def ustr_of_def read_id3_def Let_def decode_synchsafe_Nil)
qed

lemma fatal_encoding_report_here:
  "fatal_encoding_report (identify_locals @ module_globals) = ([], NameError ''data_raw'')"
  by (simp add: fatal_encoding_report_def identify_locals_def module_globals_def)

lemma identify_loop_failure:
  "\<exists>x\<in>set d. sjis_encode L [x] = EncodeFailure \<Longrightarrow>
     identify_loop L i d ps = ([], Inl (NameError ''data_raw''))"
proof (induction d arbitrary: i ps)
  case Nil
  then show ?case by simp
next
  case (Cons x d)
  show ?case
  proof (cases "sjis_encode L [x]")
    case (Encoded bs)
    with Cons.prems have "\<exists>y\<in>set d. sjis_encode L [y] = EncodeFailure" by auto
    with Encoded Cons.IH show ?thesis by simp
  next
    case Unmappable
    with Cons.prems have "\<exists>y\<in>set d. sjis_encode L [y] = EncodeFailure" by auto
    with Unmappable Cons.IH show ?thesis by simp
  next
    case EncodeFailure
    then show ?thesis by (simp add: fatal_encoding_report_here)
  qed
qed

text \<open>
  C9. The code does not do what the claim says. As soon as one character makes the
  encoder raise an exception other than UnicodeEncodeError, the handler (lines 96-103)
  raises NameError for \<^verbatim>\<open>data_raw\<close>, which is a local name of \<^verbatim>\<open>read_id3\<close> and not bound in
  \<^verbatim>\<open>identify_encode_error_positions\<close>: nothing is printed and the exception of the encoder
  is not raised again. The correction loop passes the NameError on.
\<close>

theorem fatal_report_raises_name_error:
  assumes "\<exists>x\<in>set d. sjis_encode L [x] = EncodeFailure"
  shows "identify_encode_error_positions L d = ([], Inl (NameError ''data_raw''))
     \<and> (\<not> validate_data_encode L d \<longrightarrow>
          correction_loop L a original d c s = (Inl (NameError ''data_raw''), c, s))"
proof -
  from identify_loop_failure [OF assms]
  have i: "identify_encode_error_positions L d = ([], Inl (NameError ''data_raw''))"
    by (simp add: identify_encode_error_positions_def)
  then have "snd (identify_encode_error_positions L d) = Inl (NameError ''data_raw'')"
    by simp
  with i show ?thesis
    by (simp add: correction_loop_fatal)
qed

theorem fatal_report_raises_name_error_witness:
  "(\<exists>x\<in>set [99, 97, 102, 233]. sjis_encode failing_libs [x] = EncodeFailure)
   \<and> \<not> validate_data_encode failing_libs [99, 97, 102, 233]
   \<and> identify_encode_error_positions failing_libs [99, 97, 102, 233]
       = ([], Inl (NameError ''data_raw''))
   \<and> correction_loop failing_libs True [99, 97, 102, 233] [99, 97, 102, 233] Map.empty []
       = (Inl (NameError ''data_raw''), Map.empty, [])"
proof -
  have h: "\<exists>x\<in>set [99, 97, 102, 233]. sjis_encode failing_libs [x] = EncodeFailure"
    by (auto simp: failing_libs_def)
  have v: "\<not> validate_data_encode failing_libs [99, 97, 102, 233]"
    by (simp add: validate_data_encode_def encode_data_def failing_libs_def)
  from fatal_report_raises_name_error [OF h, of True "[99, 97, 102, 233]" Map.empty "[]"] h v
  show ?thesis by simp
qed

section \<open>Properties of the writer\<close>














section \<open>Properties of the correction loop\<close>

lemma validate_iff: "validate_data_encode L t \<longleftrightarrow> (\<exists>bs. encode_data L t = Inr bs)"
  by (auto simp: validate_data_encode_def split: sum.splits)

lemma accept_correction_cases:
  assumes "accept_correction L d t c s = (r, c', s')"
  shows "s' = s \<and> ((\<exists>e. r = Inl e \<and> c' = c)
           \<or> (\<exists>bs. r = Inr bs \<and> encode_data L t = Inr bs \<and> c' = c(d \<mapsto> t)))"
proof (cases "encode_data L t")
  case (Inl e)
  with assms have "r = Inl e" "c' = c" "s' = s"
    by (simp_all add: accept_correction_def)
  then show ?thesis by simp
next
  case (Inr bs)
  with assms have "r = Inr bs" "c' = c(d \<mapsto> t)" "s' = s"
    by (simp_all add: accept_correction_def)
  with Inr show ?thesis by simp
qed

lemma correction_loop_cases:
  "correction_loop L a d alt c s = (r, c', s') \<Longrightarrow>
     (validate_data_encode L alt \<and> r = encode_data L alt \<and> c' = c \<and> s' = s)
     \<or> (\<not> validate_data_encode L alt
          \<and> ((\<exists>e. r = Inl e \<and> c' = c)
               \<or> (\<exists>t bs. r = Inr bs \<and> encode_data L t = Inr bs \<and> c' = c(d \<mapsto> t))))"
proof (induction s arbitrary: alt)
  case Nil
  show ?case
  proof (cases "validate_data_encode L alt")
    case True
    with Nil show ?thesis by (auto simp: correction_loop_valid)
  next
    case nv: False
    show ?thesis
    proof (cases "snd (identify_encode_error_positions L alt)")
      case (Inl e)
      with nv Nil show ?thesis by (auto simp: correction_loop_fatal)
    next
      case (Inr ps)
      show ?thesis
      proof (cases a)
        case True
        with nv Inr Nil have "accept_correction L d (suggest_data_changes L alt ps) c [] = (r, c', s')"
          by (simp add: correction_loop_automatic)
        from accept_correction_cases [OF this] nv show ?thesis by blast
      next
        case False
        with nv Inr Nil show ?thesis by (auto simp: correction_loop_eof)
      qed
    qed
  qed
next
  case (Cons line s)
  show ?case
  proof (cases "validate_data_encode L alt")
    case True
    with Cons.prems show ?thesis by (auto simp: correction_loop_valid)
  next
    case nv: False
    show ?thesis
    proof (cases "snd (identify_encode_error_positions L alt)")
      case (Inl e)
      with nv Cons.prems show ?thesis by (auto simp: correction_loop_fatal)
    next
      case (Inr ps)
      show ?thesis
      proof (cases a)
        case True
        with nv Inr Cons.prems
        have "accept_correction L d (suggest_data_changes L alt ps) c (line # s) = (r, c', s')"
          by (simp add: correction_loop_automatic)
        from accept_correction_cases [OF this] nv show ?thesis by blast
      next
        case False
        note step = correction_loop_manual [OF nv Inr, of d c line s]
        show ?thesis
        proof (cases "strip line = []")
          case True
          with step False Cons.prems
          have "accept_correction L d (suggest_data_changes L alt ps) c s = (r, c', s')"
            by simp
          from accept_correction_cases [OF this] nv show ?thesis by blast
        next
          case ne: False
          show ?thesis
          proof (cases "validate_data_encode L (strip line)")
            case True
            with step False ne Cons.prems
            have "accept_correction L d (strip line) c s = (r, c', s')"
              by simp
            from accept_correction_cases [OF this] nv show ?thesis by blast
          next
            case nv2: False
            with step False ne Cons.prems
            have "correction_loop L a d (strip line) c s = (r, c', s')"
              by simp
            from Cons.IH [OF this] nv nv2 show ?thesis by blast
          qed
        qed
      qed
    qed
  qed
qed

lemma transcode_cases:
  assumes "transcode L a u raw d c s = (r, c', s')"
  shows "(c' = c \<and> (\<not> u \<longrightarrow> r = Inr raw \<and> s' = s))
       \<or> (u \<and> (\<exists>t bs. r = Inr bs \<and> encode_data L t = Inr bs \<and> c' = c(d \<mapsto> t)
                 \<and> \<not> validate_data_encode L (case c d of Some cached \<Rightarrow> cached | None \<Rightarrow> d)))"
proof (cases u)
  case False
  with assms show ?thesis by (simp add: transcode_def)
next
  case True
  with assms have "correction_loop L a d (case c d of Some cached \<Rightarrow> cached | None \<Rightarrow> d) c s
      = (r, c', s')"
    by (simp add: transcode_def)
  from correction_loop_cases [OF this] True show ?thesis by blast
qed

lemma transcode_payload:
  "transcode L a True raw d c s = (Inr bs, c', s') \<Longrightarrow> encoding_valid L bs"
proof -
  assume "transcode L a True raw d c s = (Inr bs, c', s')"
  then have "correction_loop L a d (case c d of Some cached \<Rightarrow> cached | None \<Rightarrow> d) c s
      = (Inr bs, c', s')"
    by (simp add: transcode_def)
  from correction_loop_cases [OF this] show ?thesis
    by (auto simp: encoding_valid_def)
qed

lemma transcode_cache:
  assumes "cache_sound L c" and "transcode L a u raw d c s = (r, c', s')"
  shows "cache_sound L c' \<and> c \<subseteq>\<^sub>m c'"
proof -
  from transcode_cases [OF assms(2)]
  consider "c' = c"
    | t bs where "encode_data L t = Inr bs" "c' = c(d \<mapsto> t)"
        "\<not> validate_data_encode L (case c d of Some cached \<Rightarrow> cached | None \<Rightarrow> d)"
    by blast
  then show ?thesis
  proof cases
    case 1
    with assms(1) show ?thesis by simp
  next
    case 2
    from 2(3) assms(1) have none: "c d = None"
      by (cases "c d") (auto simp: cache_sound_def)
    from 2(1) have "validate_data_encode L t"
      by (auto simp: validate_iff)
    with assms(1) 2(2) have "cache_sound L c'"
      by (auto simp: cache_sound_def)
    moreover from none 2(2) have "c \<subseteq>\<^sub>m c'"
      by (auto simp: map_le_def)
    ultimately show ?thesis by simp
  qed
qed

section \<open>Invariants of the parser loop\<close>

lemma read_frames_keep_cases:
  assumes v: "re_search_tag (frame_tag input_file)" and m: "frame_tag input_file \<in> set p"
    and r: "read_frames L p a input_file frs c s = (r, c', s')"
  shows "(decode_frame_data L (take 1 (frame_data_raw input_file) = [1]) (frame_data_raw input_file) = None
          \<and> r = Inl UnicodeDecodeError \<and> c' = c \<and> s' = s)
     \<or> (\<exists>dd e. transcode L a (take 1 (frame_data_raw input_file) = [1])
                   (frame_data_raw input_file) dd c s = (Inl e, c', s') \<and> r = Inl e)
     \<or> (\<exists>dd enc c1 s1.
           transcode L a (take 1 (frame_data_raw input_file) = [1])
             (frame_data_raw input_file) dd c s = (Inr enc, c1, s1)
           \<and> read_frames L p a (next_frame input_file)
                (frs @ [\<lparr>tag = frame_tag input_file, data_flags = take 2 (drop 8 input_file),
                          data = enc,
                          data_was_converted = (take 1 (frame_data_raw input_file) = [1])\<rparr>])
                c1 s1 = (r, c', s'))"
proof (cases "decode_frame_data L (take 1 (frame_data_raw input_file) = [1]) (frame_data_raw input_file)")
  case None
  with r show ?thesis
    unfolding read_frames_keep [OF v m] by simp
next
  case (Some dd)
  obtain r1 c1 s1 where t: "transcode L a (take 1 (frame_data_raw input_file) = [1])
      (frame_data_raw input_file) dd c s = (r1, c1, s1)"
    by (cases "transcode L a (take 1 (frame_data_raw input_file) = [1])
      (frame_data_raw input_file) dd c s") auto
  show ?thesis
  proof (cases r1)
    case (Inl e)
    with r Some t have "r = Inl e" "c' = c1" "s' = s1"
      unfolding read_frames_keep [OF v m] by simp_all
    with t Inl show ?thesis by blast
  next
    case (Inr enc)
    with r Some t have "read_frames L p a (next_frame input_file)
                (frs @ [\<lparr>tag = frame_tag input_file, data_flags = take 2 (drop 8 input_file),
                          data = enc,
                          data_was_converted = (take 1 (frame_data_raw input_file) = [1])\<rparr>])
                c1 s1 = (r, c', s')"
      unfolding read_frames_keep [OF v m] by simp
    with t Inr show ?thesis by blast
  qed
qed

lemma read_frames_cache:
  "cache_sound L c \<Longrightarrow> read_frames L p a input_file frs c s = (r, c', s') \<Longrightarrow>
     cache_sound L c' \<and> c \<subseteq>\<^sub>m c'"
proof (induction "length input_file" arbitrary: input_file frs c s rule: less_induct)
  case less
  show ?case
  proof (cases "re_search_tag (frame_tag input_file)")
    case False
    with less.prems show ?thesis
      by (simp add: read_frames_stop)
  next
    case valid: True
    note shorter = next_frame_shorter [OF valid]
    show ?thesis
    proof (cases "frame_tag input_file \<in> set p")
      case False
      with valid less.prems(2)
      have "read_frames L p a (next_frame input_file) frs c s = (r, c', s')"
        by (simp add: read_frames_skip)
      from less.hyps [OF shorter less.prems(1) this] show ?thesis .
    next
      case True
      from read_frames_keep_cases [OF valid True less.prems(2)]
      show ?thesis
      proof (elim disjE exE conjE)
        assume "c' = c"
        with less.prems(1) show ?thesis by simp
      next
        fix dd e
        assume "transcode L a (take 1 (frame_data_raw input_file) = [1])
                   (frame_data_raw input_file) dd c s = (Inl e, c', s')"
        from transcode_cache [OF less.prems(1) this] show ?thesis .
      next
        fix dd enc c1 s1
        assume t: "transcode L a (take 1 (frame_data_raw input_file) = [1])
             (frame_data_raw input_file) dd c s = (Inr enc, c1, s1)"
          and rec: "read_frames L p a (next_frame input_file)
                (frs @ [\<lparr>tag = frame_tag input_file, data_flags = take 2 (drop 8 input_file),
                          data = enc,
                          data_was_converted = (take 1 (frame_data_raw input_file) = [1])\<rparr>])
                c1 s1 = (r, c', s')"
        from transcode_cache [OF less.prems(1) t] have c1: "cache_sound L c1" "c \<subseteq>\<^sub>m c1"
          by simp_all
        from less.hyps [OF shorter c1(1) rec] have "cache_sound L c'" "c1 \<subseteq>\<^sub>m c'"
          by simp_all
        with c1(2) show ?thesis
          by (auto intro: map_le_trans)
      qed
    qed
  qed
qed

lemma read_frames_payloads:
  "read_frames L p a input_file frs c s = (Inr out, c', s') \<Longrightarrow>
     list_all (\<lambda>f. data_was_converted f \<longrightarrow> encoding_valid L (data f)) frs \<Longrightarrow>
     list_all (\<lambda>f. data_was_converted f \<longrightarrow> encoding_valid L (data f)) out"
proof (induction "length input_file" arbitrary: input_file frs c s rule: less_induct)
  case less
  show ?case
  proof (cases "re_search_tag (frame_tag input_file)")
    case False
    with less.prems show ?thesis
      by (simp add: read_frames_stop)
  next
    case valid: True
    note shorter = next_frame_shorter [OF valid]
    show ?thesis
    proof (cases "frame_tag input_file \<in> set p")
      case False
      with valid less.prems(1)
      have "read_frames L p a (next_frame input_file) frs c s = (Inr out, c', s')"
        by (simp add: read_frames_skip)
      from less.hyps [OF shorter this less.prems(2)] show ?thesis .
    next
      case True
      from read_frames_keep_cases [OF valid True less.prems(1)]
      obtain dd enc c1 s1 where
        t: "transcode L a (take 1 (frame_data_raw input_file) = [1])
             (frame_data_raw input_file) dd c s = (Inr enc, c1, s1)"
        and rec: "read_frames L p a (next_frame input_file)
                (frs @ [\<lparr>tag = frame_tag input_file, data_flags = take 2 (drop 8 input_file),
                          data = enc,
                          data_was_converted = (take 1 (frame_data_raw input_file) = [1])\<rparr>])
                c1 s1 = (Inr out, c', s')"
        by auto
      have "take 1 (frame_data_raw input_file) = [1] \<longrightarrow> encoding_valid L enc"
      proof
        assume "take 1 (frame_data_raw input_file) = [1]"
        with t have "transcode L a True (frame_data_raw input_file) dd c s = (Inr enc, c1, s1)"
          by simp
        then show "encoding_valid L enc"
          by (rule transcode_payload)
      qed
      with less.prems(2) have "list_all (\<lambda>f. data_was_converted f \<longrightarrow> encoding_valid L (data f))
          (frs @ [\<lparr>tag = frame_tag input_file, data_flags = take 2 (drop 8 input_file),
                          data = enc,
                          data_was_converted = (take 1 (frame_data_raw input_file) = [1])\<rparr>])"
        by simp
      from less.hyps [OF shorter rec this] show ?thesis .
    qed
  qed
qed

section \<open>The claims about the transcoder\<close>

lemma read_id3_Inr:
  "read_id3 L input_file p a c s = (Inr d, c', s') \<Longrightarrow>
     read_frames L p a (drop 10 input_file) [] c s = (Inr (frames d), c', s')"
  by (auto simp: read_id3_def Let_def split: sum.splits if_splits prod.splits)

lemma demo_encode_bytes:
  assumes "encode_data demo_libs t = Inr payload"
  shows "list_all (\<lambda>b. b < 128) payload"
proof -
  from assms have t: "list_all (\<lambda>c. c < 128) t" and p: "payload = 0 # map word_of_nat t @ [0]"
    by (auto simp: encode_data_def demo_libs_def demo_sjis_encode_def split: if_splits)
  have "(word_of_nat c :: 8 word) < 128" if "c < 128" for c :: nat
  proof -
    from that have "unat (word_of_nat c :: 8 word) = c"
      by (simp add: unsigned_of_nat take_bit_eq_mod)
    with that have "unat (word_of_nat c :: 8 word) < unat (128 :: 8 word)"
      by simp
    then show ?thesis by (simp only: word_less_nat_alt)
  qed
  with t have "list_all (\<lambda>b. b < 128) (map word_of_nat t :: 8 word list)"
    by (induction t) auto
  with p show ?thesis by simp
qed

text \<open>
  C3, as the code has it. In every container that \<^verbatim>\<open>read_id3\<close> returns, each frame whose
  source was Unicode (\<^verbatim>\<open>data_was_converted\<close>) has an encoding-valid payload: it is what
  \<^verbatim>\<open>encode_data\<close> returned, without error, for the accepted text. A preserved frame whose
  data does not start with the byte 1 is stored with its raw data as payload, unchanged
  and unchecked, and the loop goes on.
\<close>

theorem frame_payload_validity:
  "(read_id3 L input_file p a c s = (Inr d, c', s') \<longrightarrow>
      list_all (\<lambda>f. data_was_converted f \<longrightarrow> encoding_valid L (data f)) (frames d))
   \<and> (re_search_tag (frame_tag rest) \<and> frame_tag rest \<in> set p
        \<and> take 1 (frame_data_raw rest) \<noteq> [1] \<longrightarrow>
        read_frames L p a rest frs c s =
        read_frames L p a (next_frame rest)
          (frs @ [\<lparr>tag = frame_tag rest, data_flags = take 2 (drop 8 rest),
                    data = frame_data_raw rest, data_was_converted = False\<rparr>]) c s)"
proof (intro conjI impI)
  assume r: "read_id3 L input_file p a c s = (Inr d, c', s')"
  from read_frames_payloads [OF read_id3_Inr [OF r]]
  show "list_all (\<lambda>f. data_was_converted f \<longrightarrow> encoding_valid L (data f)) (frames d)"
    by simp
next
  assume h: "re_search_tag (frame_tag rest) \<and> frame_tag rest \<in> set p
        \<and> take 1 (frame_data_raw rest) \<noteq> [1]"
  then have v: "re_search_tag (frame_tag rest)" and m: "frame_tag rest \<in> set p"
    and u: "take 1 (frame_data_raw rest) \<noteq> [1]"
    by simp_all
  show "read_frames L p a rest frs c s =
        read_frames L p a (next_frame rest)
          (frs @ [\<lparr>tag = frame_tag rest, data_flags = take 2 (drop 8 rest),
                    data = frame_data_raw rest, data_was_converted = False\<rparr>]) c s"
    unfolding read_frames_keep [OF v m] using u
    by (simp add: decode_frame_data_def transcode_def)
qed

lemma latin1_read:
  "read_id3 demo_libs latin1_file example_tags True Map.empty [] =
     (Inr \<lparr>header = [73, 68, 51, 4, 0, 0],
           frames = [\<lparr>tag = ustr_of ''TIT2'', data_flags = [0, 0],
                      data = [0, 99, 97, 102, 233, 0], data_was_converted = False\<rparr>],
           content_offset = 36\<rparr>, Map.empty, [])"
proof -
  let ?f = "[84, 73, 84, 50, 0, 0, 0, 6, 0, 0, 0, 99, 97, 102, 233, 0,
      0, 0, 0, 0, 0, 0, 0, 0, 0, 0] :: bytes"
  have f: "drop 10 latin1_file = ?f" by (simp add: latin1_file_def)
  have v: "re_search_tag (frame_tag ?f)" by (simp add: frame_field_defs)
  have m: "frame_tag ?f \<in> set example_tags" by (simp add: frame_field_defs)
  have r: "frame_data_raw ?f = [0, 99, 97, 102, 233, 0]"
    by (simp add: frame_field_defs)
  have n: "next_frame ?f = [0, 0, 0, 0, 0, 0, 0, 0, 0, 0]"
    by (simp add: frame_field_defs)
  have st: "\<not> re_search_tag (frame_tag [0, 0, 0, 0, 0, 0, 0, 0, 0, 0])"
    by (simp add: frame_field_defs)
  have fr: "read_frames demo_libs example_tags True ?f [] Map.empty [] =
      (Inr [\<lparr>tag = ustr_of ''TIT2'', data_flags = [0, 0],
              data = [0, 99, 97, 102, 233, 0], data_was_converted = False\<rparr>], Map.empty, [])"
    unfolding read_frames_keep [OF v m] r n
    by (simp add: decode_frame_data_def transcode_def read_frames_stop [OF st]
        frame_tag_def iso_decode_def ustr_of_def)
  have h: "take 4 (drop 6 (take 10 latin1_file)) = [0, 0, 0, 26]"
    by (simp add: latin1_file_def)
  have i: "iso_decode (take 3 latin1_file) = ustr_of ''ID3''"
    by (simp add: latin1_file_def iso_decode_def ustr_of_def)
  have k: "take 6 latin1_file = [73, 68, 51, 4, 0, 0]" "length latin1_file = 36"
    by (simp_all add: latin1_file_def)
  show ?thesis
    by (simp add: read_id3_def Let_def h i k decode_synchsafe_four f fr)
qed

theorem frame_payload_validity_witness:
  "read_id3 demo_libs example_file example_tags True Map.empty [] =
     (Inr example_container, [[99, 97, 102, 233] \<mapsto> [99, 97, 102, 101]], [])
   \<and> list_all (\<lambda>f. \<not> data_was_converted f \<or> encoding_valid demo_libs (data f))
        (frames example_container)
   \<and> encoding_valid demo_libs [0, 99, 97, 102, 101, 0]"
proof -
  note r = example_read [of "[]"]
  from frame_payload_validity [where L = demo_libs and input_file = example_file
      and p = example_tags and a = True and c = Map.empty and s = "[]" and d = example_container
      and c' = "[[99, 97, 102, 233] \<mapsto> [99, 97, 102, 101]]" and s' = "[]"] r
  have l: "list_all (\<lambda>f. data_was_converted f \<longrightarrow> encoding_valid demo_libs (data f))
      (frames example_container)"
    by blast
  then have "encoding_valid demo_libs [0, 99, 97, 102, 101, 0]"
    by (simp add: example_container_def)
  moreover from l have "list_all (\<lambda>f. \<not> data_was_converted f \<or> encoding_valid demo_libs (data f))
        (frames example_container)"
    by (simp add: list_all_iff)
  ultimately show ?thesis using r by blast
qed

text \<open>
  The claim as the specification states it, for every stored frame, fails on a frame that
  is not Unicode: its raw bytes are stored as they are (lines 198-199). The file below
  holds the frame \<^verbatim>\<open>TIT2\<close> with the ISO-8859-1 text \<^verbatim>\<open>caf\<close> and the byte E9; the payload
  00 63 61 66 E9 00 is stored, and no text encodes to it.
\<close>

theorem passthrough_payload_not_valid:
  "read_id3 demo_libs latin1_file example_tags True Map.empty [] =
     (Inr \<lparr>header = [73, 68, 51, 4, 0, 0],
           frames = [\<lparr>tag = ustr_of ''TIT2'', data_flags = [0, 0],
                      data = [0, 99, 97, 102, 233, 0], data_was_converted = False\<rparr>],
           content_offset = 36\<rparr>, Map.empty, [])
   \<and> \<not> encoding_valid demo_libs [0, 99, 97, 102, 233, 0]"
proof -
  have "\<not> encoding_valid demo_libs [0, 99, 97, 102, 233, 0]"
  proof
    assume "encoding_valid demo_libs [0, 99, 97, 102, 233, 0]"
    then obtain t where "encode_data demo_libs t = Inr [0, 99, 97, 102, 233, 0]"
      by (auto simp: encoding_valid_def)
    from demo_encode_bytes [OF this] show False
      by simp
  qed
  with latin1_read show ?thesis by simp
qed

lemma cache_sound_empty: "cache_sound L Map.empty"
  by (simp add: cache_sound_def)

lemma transcode_cache_hit:
  assumes "cache_sound L c" and "c d = Some v"
  shows "\<exists>bs. encode_data L v = Inr bs \<and> transcode L a True raw d c s = (Inr bs, c, s)"
proof -
  from assms have v: "validate_data_encode L v"
    by (auto simp: cache_sound_def)
  then obtain bs where "encode_data L v = Inr bs"
    by (auto simp: validate_iff)
  with v assms(2) show ?thesis
    by (simp add: transcode_def correction_loop_valid)
qed

lemma read_id3_cache:
  assumes "cache_sound L c" and "read_id3 L input_file p a c s = (r, c', s')"
  shows "cache_sound L c' \<and> c \<subseteq>\<^sub>m c'"
proof -
  from assms(2) consider "c' = c"
    | r1 where "read_frames L p a (drop 10 input_file) [] c s = (r1, c', s')"
    by (auto simp: read_id3_def Let_def split: sum.splits if_splits prod.splits)
  then show ?thesis
  proof cases
    case 1
    with assms(1) show ?thesis by simp
  next
    case 2
    from read_frames_cache [OF assms(1) 2] show ?thesis .
  qed
qed

text \<open>
  Where an accepted text is stored (lines 231-236): when the decoded text has no entry
  and does not encode, a payload is only returned after the accepted text has been stored
  under the decoded text.
\<close>

lemma transcode_stores:
  assumes n: "c d = None" and nv: "\<not> validate_data_encode L d"
    and t: "transcode L a True raw d c s = (Inr payload, c_after, s_after)"
  shows "\<exists>accepted. c_after = c(d \<mapsto> accepted) \<and> encode_data L accepted = Inr payload"
proof -
  from t n have "correction_loop L a d d c s = (Inr payload, c_after, s_after)"
    by (simp add: transcode_def)
  from correction_loop_cases [OF this] nv show ?thesis
    by auto
qed

lemma transcode_automatic_stores:
  assumes n: "c d = None" and nv: "\<not> validate_data_encode L d"
    and ps: "snd (identify_encode_error_positions L d) = Inr ps"
    and e: "encode_data L (suggest_data_changes L d ps) = Inr payload"
  shows "transcode L True True raw d c s = (Inr payload, c(d \<mapsto> suggest_data_changes L d ps), s)"
  using n e by (simp add: transcode_def correction_loop_automatic [OF nv ps] accept_correction_def)

lemma transcode_manual_stores:
  assumes n: "c d = None" and nv: "\<not> validate_data_encode L d"
    and ps: "snd (identify_encode_error_positions L d) = Inr ps"
    and l: "strip line \<noteq> []"
    and e: "encode_data L (strip line) = Inr payload"
  shows "transcode L False True raw d c (line # s) = (Inr payload, c(d \<mapsto> strip line), s)"
proof -
  from e have "validate_data_encode L (strip line)"
    by (auto simp: validate_iff)
  with n e l show ?thesis
    by (simp add: transcode_def correction_loop_manual [OF nv ps] accept_correction_def)
qed

lemma transcode_enter_stores:
  assumes n: "c d = None" and nv: "\<not> validate_data_encode L d"
    and ps: "snd (identify_encode_error_positions L d) = Inr ps"
    and l: "strip line = []"
    and e: "encode_data L (suggest_data_changes L d ps) = Inr payload"
  shows "transcode L False True raw d c (line # s) =
     (Inr payload, c(d \<mapsto> suggest_data_changes L d ps), s)"
  using n e l by (simp add: transcode_def correction_loop_manual [OF nv ps] accept_correction_def)

lemma cache_later_hit:
  assumes "c_after d = Some accepted" and "c_after \<subseteq>\<^sub>m c_later" and "cache_sound L c_later"
    and "encode_data L accepted = Inr payload"
  shows "transcode L a True raw d c_later s = (Inr payload, c_later, s)"
proof -
  from assms(1,2) have "c_later d = Some accepted"
    by (auto simp: map_le_def dom_def)
  from transcode_cache_hit [OF assms(3) this, of a raw s] assms(4) show ?thesis
    by simp
qed

text \<open>
  The file with the same frame twice, read without automatic correction and with one
  line on standard input: the line is the answer to the prompt of the first frame, the
  second frame is resolved from the cache and asks nothing.
\<close>

lemma twice_read:
  "read_id3 demo_libs twice_file example_tags False Map.empty [ustr_of '' cafe '', ustr_of ''x''] =
     (Inr twice_container, [[99, 97, 102, 233] \<mapsto> [99, 97, 102, 101]], [ustr_of ''x''])"
proof -
  let ?raw = "[1, 255, 254, 99, 0, 97, 0, 102, 0, 233, 0, 0, 0] :: bytes"
  let ?one = "[84, 73, 84, 50, 0, 0, 0, 13, 0, 0, 1, 255, 254, 99, 0, 97, 0, 102, 0, 233, 0, 0, 0]
      :: bytes"
  let ?two = "[84, 73, 84, 50, 0, 0, 0, 13, 0, 0, 1, 255, 254, 99, 0, 97, 0, 102, 0, 233, 0, 0, 0,
      84, 73, 84, 50, 0, 0, 0, 13, 0, 0, 1, 255, 254, 99, 0, 97, 0, 102, 0, 233, 0, 0, 0] :: bytes"
  let ?c = "[[99, 97, 102, 233] \<mapsto> [99, 97, 102, 101 :: nat]]"
  have f: "drop 10 twice_file = ?two" by (simp add: twice_file_def)
  have v2: "re_search_tag (frame_tag ?two)" and m2: "frame_tag ?two \<in> set example_tags"
    and r2: "frame_data_raw ?two = ?raw" and n2: "next_frame ?two = ?one"
    by (simp_all add: frame_field_defs)
  have v1: "re_search_tag (frame_tag ?one)" and m1: "frame_tag ?one \<in> set example_tags"
    and r1: "frame_data_raw ?one = ?raw" and n1: "next_frame ?one = []"
    by (simp_all add: frame_field_defs)
  have e: "\<not> re_search_tag (frame_tag [])"
    by (simp add: frame_field_defs)
  have d: "decode_frame_data demo_libs True ?raw = Some [99, 97, 102, 233]"
    by (simp add: decode_frame_data_def demo_libs_def example_utf16)
  have nv: "\<not> validate_data_encode demo_libs [99, 97, 102, 233]"
    by (simp add: validate_data_encode_def encode_data_def demo_libs_def demo_sjis_encode_def)
  have ps: "snd (identify_encode_error_positions demo_libs [99, 97, 102, 233]) = Inr [3]"
    by (simp add: example_identify)
  have st: "strip (ustr_of '' cafe '') = [99, 97, 102, 101]"
    by (simp add: strip_def isspace_def ustr_of_def)
  have en: "encode_data demo_libs [99, 97, 102, 101] = Inr [0, 99, 97, 102, 101, 0]"
    by (simp add: encode_data_def demo_libs_def demo_sjis_encode_def)
  have va: "validate_data_encode demo_libs [99, 97, 102, 101]"
    by (simp add: validate_data_encode_def en)
  have t2: "transcode demo_libs False True ?raw [99, 97, 102, 233] Map.empty (line # s)
      = (Inr [0, 99, 97, 102, 101, 0], ?c, s)" if "strip line = [99, 97, 102, 101]" for line s
    using that
    by (simp add: transcode_def correction_loop_manual [OF nv ps] va accept_correction_def en)
  have t1: "transcode demo_libs False True ?raw [99, 97, 102, 233] ?c s
      = (Inr [0, 99, 97, 102, 101, 0], ?c, s)" for s
    by (simp add: transcode_def correction_loop_valid [OF va] en)
  have one: "read_frames demo_libs example_tags False ?one frs ?c s
      = (Inr (frs @ [\<lparr>tag = ustr_of ''TIT2'', data_flags = [0, 0],
                      data = [0, 99, 97, 102, 101, 0], data_was_converted = True\<rparr>]),
         ?c, s)" for frs s
    unfolding read_frames_keep [OF v1 m1] r1 n1
    by (simp add: d t1 read_frames_stop [OF e] frame_tag_def iso_decode_def ustr_of_def)
  have fr: "read_frames demo_libs example_tags False ?two [] Map.empty (line # s)
      = (Inr (frames twice_container), ?c, s)" if "strip line = [99, 97, 102, 101]" for line s
    unfolding read_frames_keep [OF v2 m2] r2 n2
    by (simp add: d t2 [OF that] one twice_container_def frame_tag_def iso_decode_def ustr_of_def)
  have h: "take 4 (drop 6 (take 10 twice_file)) = [0, 0, 0, 46]"
    by (simp add: twice_file_def)
  have i: "iso_decode (take 3 twice_file) = ustr_of ''ID3''"
    by (simp add: twice_file_def iso_decode_def ustr_of_def)
  have k: "take 6 twice_file = [73, 68, 51, 4, 0, 0]" "length twice_file = 56"
    by (simp_all add: twice_file_def)
  show ?thesis
    by (simp add: read_id3_def Let_def h i k decode_synchsafe_four f fr [OF st] twice_container_def)
qed

text \<open>
  C4. The cache is sound at the start of a run (it is empty) and stays sound. From a
  sound cache: a Unicode frame whose text has an entry is resolved from that entry, under
  either policy, with standard input and cache untouched; \<^verbatim>\<open>read_id3\<close> only adds entries to
  the cache, every old entry keeps its value, and the new cache is sound again; and when
  a frame is resolved and its text then has an entry, the payload is the encoding of that
  entry and every later frame with the same text gets the same payload without a prompt.
  An accepted substitute is stored: when a text with no entry does not encode and the
  frame is resolved, the cache after it is the cache before it with the accepted text
  under the decoded text, the payload is the encoding of the accepted text, and in every
  later sound cache that extends it a frame with the same text gets this payload with
  standard input and cache untouched. The accepted text is the suggestion under the
  automatic policy and after an empty answer, and the answer itself when it encodes.
\<close>

theorem correction_caching:
  assumes "cache_sound L c"
  shows "(c d = Some v \<longrightarrow>
           (\<exists>bs. encode_data L v = Inr bs \<and> transcode L a True raw d c s = (Inr bs, c, s)))
     \<and> (read_id3 L input_file p a c s = (r, c', s') \<longrightarrow> c \<subseteq>\<^sub>m c' \<and> cache_sound L c')
     \<and> (transcode L a True raw d c s = (Inr payload, c_after, s_after) \<and> c_after d = Some accepted \<longrightarrow>
           encode_data L accepted = Inr payload \<and> c \<subseteq>\<^sub>m c_after
           \<and> transcode L a_later True raw_later d c_after s_later = (Inr payload, c_after, s_later))
     \<and> (c d = None \<and> \<not> validate_data_encode L d
        \<and> transcode L a True raw d c s = (Inr payload, c_after, s_after)
        \<and> c_after \<subseteq>\<^sub>m c_later \<and> cache_sound L c_later \<longrightarrow>
           (\<exists>accepted. c_after = c(d \<mapsto> accepted) \<and> encode_data L accepted = Inr payload
              \<and> transcode L a_later True raw_later d c_later s_later
                  = (Inr payload, c_later, s_later)))
     \<and> (c d = None \<and> \<not> validate_data_encode L d
        \<and> snd (identify_encode_error_positions L d) = Inr ps
        \<and> encode_data L (suggest_data_changes L d ps) = Inr payload \<longrightarrow>
           transcode L True True raw d c s
             = (Inr payload, c(d \<mapsto> suggest_data_changes L d ps), s))
     \<and> (c d = None \<and> \<not> validate_data_encode L d
        \<and> snd (identify_encode_error_positions L d) = Inr ps
        \<and> encode_data L (suggest_data_changes L d ps) = Inr payload \<and> strip line = [] \<longrightarrow>
           transcode L False True raw d c (line # s)
             = (Inr payload, c(d \<mapsto> suggest_data_changes L d ps), s))
     \<and> (c d = None \<and> \<not> validate_data_encode L d
        \<and> snd (identify_encode_error_positions L d) = Inr ps
        \<and> strip line \<noteq> [] \<and> encode_data L (strip line) = Inr payload \<longrightarrow>
           transcode L False True raw d c (line # s) = (Inr payload, c(d \<mapsto> strip line), s))"
proof (intro conjI impI)
  assume "c d = Some v"
  with assms show "\<exists>bs. encode_data L v = Inr bs \<and> transcode L a True raw d c s = (Inr bs, c, s)"
    by (rule transcode_cache_hit)
next
  assume "read_id3 L input_file p a c s = (r, c', s')"
  from read_id3_cache [OF assms this] show "c \<subseteq>\<^sub>m c'" "cache_sound L c'"
    by simp_all
next
  assume h: "transcode L a True raw d c s = (Inr payload, c_after, s_after) \<and> c_after d = Some accepted"
  then have t: "transcode L a True raw d c s = (Inr payload, c_after, s_after)" and e: "c_after d = Some accepted"
    by simp_all
  from transcode_cache [OF assms t] have sound_after: "cache_sound L c_after" and le: "c \<subseteq>\<^sub>m c_after"
    by simp_all
  from transcode_cases [OF t] have enc: "encode_data L accepted = Inr payload"
  proof (elim disjE exE conjE)
    assume "c_after = c"
    with e have "c d = Some accepted" by simp
    from transcode_cache_hit [OF assms this, of a raw s] t show ?thesis
      by auto
  next
    fix t' bs
    assume "Inr payload = Inr bs" "encode_data L t' = Inr bs" "c_after = c(d \<mapsto> t')"
    with e show ?thesis by simp
  qed
  from transcode_cache_hit [OF sound_after e, of a_later raw_later s_later] enc
  have "transcode L a_later True raw_later d c_after s_later = (Inr payload, c_after, s_later)"
    by simp
  with enc le show "encode_data L accepted = Inr payload" "c \<subseteq>\<^sub>m c_after"
    "transcode L a_later True raw_later d c_after s_later = (Inr payload, c_after, s_later)"
    by simp_all
next
  assume h: "c d = None \<and> \<not> validate_data_encode L d
        \<and> transcode L a True raw d c s = (Inr payload, c_after, s_after)
        \<and> c_after \<subseteq>\<^sub>m c_later \<and> cache_sound L c_later"
  then have n: "c d = None" and nv: "\<not> validate_data_encode L d"
    and t: "transcode L a True raw d c s = (Inr payload, c_after, s_after)"
    and le: "c_after \<subseteq>\<^sub>m c_later" and sound: "cache_sound L c_later"
    by simp_all
  from transcode_stores [OF n nv t] obtain accepted where
    st: "c_after = c(d \<mapsto> accepted)" and enc: "encode_data L accepted = Inr payload"
    by blast
  from st have "c_after d = Some accepted"
    by simp
  from cache_later_hit [OF this le sound enc]
  have "transcode L a_later True raw_later d c_later s_later = (Inr payload, c_later, s_later)" .
  with st enc show "\<exists>accepted. c_after = c(d \<mapsto> accepted) \<and> encode_data L accepted = Inr payload
              \<and> transcode L a_later True raw_later d c_later s_later
                  = (Inr payload, c_later, s_later)"
    by blast
next
  assume "c d = None \<and> \<not> validate_data_encode L d
        \<and> snd (identify_encode_error_positions L d) = Inr ps
        \<and> encode_data L (suggest_data_changes L d ps) = Inr payload"
  then show "transcode L True True raw d c s
             = (Inr payload, c(d \<mapsto> suggest_data_changes L d ps), s)"
    by (simp add: transcode_automatic_stores)
next
  assume "c d = None \<and> \<not> validate_data_encode L d
        \<and> snd (identify_encode_error_positions L d) = Inr ps
        \<and> encode_data L (suggest_data_changes L d ps) = Inr payload \<and> strip line = []"
  then show "transcode L False True raw d c (line # s)
             = (Inr payload, c(d \<mapsto> suggest_data_changes L d ps), s)"
    by (simp add: transcode_enter_stores)
next
  assume "c d = None \<and> \<not> validate_data_encode L d
        \<and> snd (identify_encode_error_positions L d) = Inr ps
        \<and> strip line \<noteq> [] \<and> encode_data L (strip line) = Inr payload"
  then show "transcode L False True raw d c (line # s) = (Inr payload, c(d \<mapsto> strip line), s)"
    by (simp add: transcode_manual_stores)
qed

theorem correction_caching_witness:
  "cache_sound demo_libs Map.empty
   \<and> \<not> validate_data_encode demo_libs [99, 97, 102, 233]
   \<and> transcode demo_libs True True [1, 255, 254, 99, 0, 97, 0, 102, 0, 233, 0, 0, 0]
        [99, 97, 102, 233] Map.empty []
      = (Inr [0, 99, 97, 102, 101, 0], [[99, 97, 102, 233] \<mapsto> [99, 97, 102, 101]], [])
   \<and> transcode demo_libs False True [1, 255, 254, 99, 0, 97, 0, 102, 0, 233, 0, 0, 0]
        [99, 97, 102, 233] Map.empty [[32]]
      = (Inr [0, 99, 97, 102, 101, 0], [[99, 97, 102, 233] \<mapsto> [99, 97, 102, 101]], [])
   \<and> transcode demo_libs False True [1, 255, 254, 99, 0, 97, 0, 102, 0, 233, 0, 0, 0]
        [99, 97, 102, 233] Map.empty [[32, 99, 97, 102, 32]]
      = (Inr [0, 99, 97, 102, 0], [[99, 97, 102, 233] \<mapsto> [99, 97, 102]], [])
   \<and> transcode demo_libs False True [1, 255, 254, 99, 0, 97, 0, 102, 0, 233, 0, 0, 0]
        [99, 97, 102, 233] [[99, 97, 102, 233] \<mapsto> [99, 97, 102]] []
      = (Inr [0, 99, 97, 102, 0], [[99, 97, 102, 233] \<mapsto> [99, 97, 102]], [])
   \<and> transcode demo_libs False True [1, 255, 254, 99, 0, 97, 0, 102, 0, 233, 0, 0, 0]
        [99, 97, 102, 233] [[99, 97, 102, 233] \<mapsto> [99, 97, 102, 101]] []
      = (Inr [0, 99, 97, 102, 101, 0], [[99, 97, 102, 233] \<mapsto> [99, 97, 102, 101]], [])
   \<and> read_id3 demo_libs twice_file example_tags False Map.empty
        [ustr_of '' cafe '', ustr_of ''x''] =
     (Inr twice_container, [[99, 97, 102, 233] \<mapsto> [99, 97, 102, 101]], [ustr_of ''x''])
   \<and> cache_sound demo_libs [[99, 97, 102, 233] \<mapsto> [99, 97, 102, 101]]"
proof -
  let ?raw = "[1, 255, 254, 99, 0, 97, 0, 102, 0, 233, 0, 0, 0] :: bytes"
  let ?d = "[99, 97, 102, 233] :: nat list"
  let ?c = "[?d \<mapsto> [99, 97, 102, 101 :: nat]]"
  let ?m = "[?d \<mapsto> [99, 97, 102 :: nat]]"
  have s0: "cache_sound demo_libs Map.empty"
    by (rule cache_sound_empty)
  have n: "Map.empty ?d = None"
    by simp
  have nv: "\<not> validate_data_encode demo_libs ?d"
    by (simp add: validate_data_encode_def encode_data_def demo_libs_def demo_sjis_encode_def)
  have ps: "snd (identify_encode_error_positions demo_libs ?d) = Inr [3]"
    by (simp add: example_identify)
  have sg: "suggest_data_changes demo_libs ?d [3] = [99, 97, 102, 101]"
    by (simp add: suggest_data_changes_def demo_libs_def demo_unidecode_def ustr_of_def)
  have en: "encode_data demo_libs [99, 97, 102, 101] = Inr [0, 99, 97, 102, 101, 0]"
    by (simp add: encode_data_def demo_libs_def demo_sjis_encode_def)
  have em: "encode_data demo_libs [99, 97, 102] = Inr [0, 99, 97, 102, 0]"
    by (simp add: encode_data_def demo_libs_def demo_sjis_encode_def)
  have blank: "strip [32] = []"
    by (simp add: strip_def isspace_def)
  have answer: "strip [32, 99, 97, 102, 32] = [99, 97, 102]"
    by (simp add: strip_def isspace_def)
  note T = correction_caching [OF s0, where d = ?d and raw = ?raw and ps = "[3]"]
  from T [where payload = "[0, 99, 97, 102, 101, 0]" and s = "[]"] n nv ps sg en
  have auto: "transcode demo_libs True True ?raw ?d Map.empty [] = (Inr [0, 99, 97, 102, 101, 0], ?c, [])"
    by simp
  from T [where payload = "[0, 99, 97, 102, 101, 0]" and s = "[]" and line = "[32]"]
    n nv ps sg en blank
  have enter: "transcode demo_libs False True ?raw ?d Map.empty [[32]]
      = (Inr [0, 99, 97, 102, 101, 0], ?c, [])"
    by simp
  from T [where payload = "[0, 99, 97, 102, 0]" and s = "[]" and line = "[32, 99, 97, 102, 32]"]
    n nv ps em answer
  have manual: "transcode demo_libs False True ?raw ?d Map.empty [[32, 99, 97, 102, 32]]
      = (Inr [0, 99, 97, 102, 0], ?m, [])"
    by simp
  have sm: "cache_sound demo_libs ?m"
    by (simp add: cache_sound_def validate_data_encode_def em)
  have le: "?m \<subseteq>\<^sub>m ?m"
    by simp
  from T [where payload = "[0, 99, 97, 102, 0]" and s = "[[32, 99, 97, 102, 32]]" and a = False
      and c_after = ?m and s_after = "[]" and c_later = ?m and a_later = False
      and raw_later = ?raw and s_later = "[]"] n nv manual le sm
  have later_manual: "transcode demo_libs False True ?raw ?d ?m [] = (Inr [0, 99, 97, 102, 0], ?m, [])"
    by blast
  note r = twice_read
  from correction_caching [OF s0, where input_file = twice_file and p = example_tags
      and a = False and s = "[ustr_of '' cafe '', ustr_of ''x'']" and r = "Inr twice_container"
      and c' = ?c and s' = "[ustr_of ''x'']"] r
  have sc: "cache_sound demo_libs ?c"
    by blast
  have e: "?c ?d = Some [99, 97, 102, 101]"
    by simp
  from T [where a = True and s = "[]" and payload = "[0, 99, 97, 102, 101, 0]" and c_after = ?c
      and s_after = "[]" and accepted = "[99, 97, 102, 101]" and a_later = False
      and raw_later = ?raw and s_later = "[]"] auto e
  have later: "transcode demo_libs False True ?raw ?d ?c [] = (Inr [0, 99, 97, 102, 101, 0], ?c, [])"
    by blast
  from s0 nv auto enter manual later_manual later r sc show ?thesis
    by blast
qed

section \<open>The automatic correction\<close>

lemma validate_char:
  "validate_data_encode L [ch] \<longleftrightarrow> (\<exists>bs. sjis_encode L [ch] = Encoded bs)"
  by (cases "sjis_encode L [ch]") (simp_all add: validate_data_encode_def encode_data_def)

lemma identify_loop_positions:
  assumes "\<forall>ch. sjis_encode L [ch] \<noteq> EncodeFailure"
  shows "identify_loop L i t ps =
    ([], Inr (ps @ map fst (filter (\<lambda>(k, ch). \<not> validate_data_encode L [ch]) (enumerate i t))))"
proof (induction t arbitrary: i ps)
  case Nil
  then show ?case by simp
next
  case (Cons x t)
  show ?case
  proof (cases "sjis_encode L [x]")
    case (Encoded bs)
    then have "validate_data_encode L [x]" by (simp add: validate_char)
    with Encoded Cons.IH [of "Suc i" ps] show ?thesis by simp
  next
    case Unmappable
    then have "\<not> validate_data_encode L [x]" by (simp add: validate_char)
    with Unmappable Cons.IH [of "Suc i" "ps @ [i]"] show ?thesis by simp
  next
    case EncodeFailure
    with assms show ?thesis by simp
  qed
qed

lemma suggestion_valid:
  assumes c: "library_contract L"
    and ps: "ps = map fst (filter (\<lambda>(k, ch). \<not> validate_data_encode L [ch]) (enumerate 0 t))"
  shows "validate_data_encode L (suggest_data_changes L t ps)"
proof -
  from c have per: "\<And>u. validate_data_encode L u = list_all (\<lambda>ch. validate_data_encode L [ch]) u"
    and ascii: "\<And>ch. ch < 128 \<Longrightarrow> validate_data_encode L [ch]"
    and uni: "\<And>ch. list_all (\<lambda>x. x < 128) (unidecode L [ch])"
    unfolding library_contract_def by blast+
  let ?piece = "\<lambda>(char_index, char).
                if char_index \<notin> set ps then [char]
                else (let decoded_char = unidecode L [char]
                      in if decoded_char \<noteq> [char] then decoded_char else [95])"
  have piece: "list_all (\<lambda>ch. validate_data_encode L [ch]) (?piece (k, ch))"
    if "(k, ch) \<in> set (enumerate 0 t)" for k ch
  proof (cases "k \<in> set ps")
    case False
    with that ps have "validate_data_encode L [ch]"
      by force
    with False show ?thesis by simp
  next
    case True
    have "list_all (\<lambda>x. validate_data_encode L [x]) (unidecode L [ch])"
      using uni [of ch] ascii by (auto simp: list_all_iff)
    moreover have "validate_data_encode L [95]"
      by (rule ascii) simp
    ultimately show ?thesis
      using True by (simp add: Let_def)
  qed
  have "list_all (\<lambda>ch. validate_data_encode L [ch]) (concat (map ?piece (enumerate 0 t)))"
    unfolding list_all_iff
  proof
    fix x
    assume "x \<in> set (concat (map ?piece (enumerate 0 t)))"
    then obtain kc where kc: "kc \<in> set (enumerate 0 t)" and x: "x \<in> set (?piece kc)"
      by auto
    obtain k ch where "kc = (k, ch)" by (cases kc)
    with kc x piece [of k ch] show "validate_data_encode L [x]"
      by (simp add: list_all_iff)
  qed
  then show ?thesis
    unfolding suggest_data_changes_def by (subst per)
qed

lemma demo_validate: "validate_data_encode demo_libs t = list_all (\<lambda>c. c < 128) t"
  by (simp add: validate_data_encode_def encode_data_def demo_libs_def demo_sjis_encode_def)

lemma demo_contract: "library_contract demo_libs"
  unfolding library_contract_def
proof (intro conjI allI impI)
  fix t
  show "validate_data_encode demo_libs t = list_all (\<lambda>ch. validate_data_encode demo_libs [ch]) t"
    by (simp add: demo_validate)
next
  fix ch :: nat
  assume "ch < 128"
  then show "validate_data_encode demo_libs [ch]"
    by (simp add: demo_validate)
next
  fix ch
  show "list_all (\<lambda>x. x < 128) (unidecode demo_libs [ch])"
    by (simp add: demo_libs_def demo_unidecode_def ustr_of_def)
next
  fix ch
  show "sjis_encode demo_libs [ch] \<noteq> EncodeFailure"
    by (simp add: demo_libs_def demo_sjis_encode_def)
qed

text \<open>
  C10. The libraries are parameters, so the claim rests on what it takes from them.
  \<open>library_contract\<close> says: a text encodes exactly when each of its characters does; every
  ASCII character encodes; \<^verbatim>\<open>unidecode\<close> returns ASCII text; and the encoder raises nothing
  but UnicodeEncodeError. Under this contract the error positions are always found, the
  suggested text always encodes, and under the automatic policy the loop, started on a
  text that does not encode, returns after one round: the payload is the encoding of the
  first suggestion, which is stored in the cache, and standard input is not read.
\<close>

theorem automatic_correction_one_round:
  assumes "library_contract L"
  shows "(\<exists>ps. identify_encode_error_positions L t = ([], Inr ps)
            \<and> validate_data_encode L (suggest_data_changes L t ps))
     \<and> (\<not> validate_data_encode L alt \<longrightarrow>
          (\<exists>ps bs. identify_encode_error_positions L alt = ([], Inr ps)
             \<and> encode_data L (suggest_data_changes L alt ps) = Inr bs
             \<and> correction_loop L True d alt c s =
                 (Inr bs, c(d \<mapsto> suggest_data_changes L alt ps), s)))"
proof -
  from assms have nf: "\<forall>ch. sjis_encode L [ch] \<noteq> EncodeFailure"
    unfolding library_contract_def by blast
  have found: "\<exists>ps. identify_encode_error_positions L u = ([], Inr ps)
            \<and> validate_data_encode L (suggest_data_changes L u ps)" for u
  proof -
    let ?ps = "map fst (filter (\<lambda>(k, ch). \<not> validate_data_encode L [ch]) (enumerate 0 u))"
    have "identify_encode_error_positions L u = ([], Inr ?ps)"
      using identify_loop_positions [OF nf, of 0 u "[]"]
      by (simp add: identify_encode_error_positions_def)
    moreover have "validate_data_encode L (suggest_data_changes L u ?ps)"
      using assms by (rule suggestion_valid) simp
    ultimately show ?thesis by blast
  qed
  have "\<exists>ps bs. identify_encode_error_positions L alt = ([], Inr ps)
             \<and> encode_data L (suggest_data_changes L alt ps) = Inr bs
             \<and> correction_loop L True d alt c s =
                 (Inr bs, c(d \<mapsto> suggest_data_changes L alt ps), s)"
    if nv: "\<not> validate_data_encode L alt"
  proof -
    from found [of alt] obtain ps where
      i: "identify_encode_error_positions L alt = ([], Inr ps)"
      and v: "validate_data_encode L (suggest_data_changes L alt ps)"
      by blast
    from v obtain bs where e: "encode_data L (suggest_data_changes L alt ps) = Inr bs"
      by (auto simp: validate_iff)
    from i have "snd (identify_encode_error_positions L alt) = Inr ps"
      by simp
    from correction_loop_automatic [OF nv this, of d c s] e
    have "correction_loop L True d alt c s = (Inr bs, c(d \<mapsto> suggest_data_changes L alt ps), s)"
      by (simp add: accept_correction_def)
    with i e show ?thesis by blast
  qed
  with found [of t] show ?thesis by blast
qed

theorem automatic_correction_one_round_witness:
  "library_contract demo_libs
   \<and> \<not> validate_data_encode demo_libs [99, 97, 102, 233]
   \<and> identify_encode_error_positions demo_libs [99, 97, 102, 233] = ([], Inr [3])
   \<and> suggest_data_changes demo_libs [99, 97, 102, 233] [3] = [99, 97, 102, 101]
   \<and> validate_data_encode demo_libs [99, 97, 102, 101]
   \<and> correction_loop demo_libs True [99, 97, 102, 233] [99, 97, 102, 233] Map.empty []
       = (Inr [0, 99, 97, 102, 101, 0], [[99, 97, 102, 233] \<mapsto> [99, 97, 102, 101]], [])"
proof -
  have nv: "\<not> validate_data_encode demo_libs [99, 97, 102, 233]"
    by (simp add: demo_validate)
  have sg: "suggest_data_changes demo_libs [99, 97, 102, 233] [3] = [99, 97, 102, 101]"
    by (simp add: suggest_data_changes_def demo_libs_def demo_unidecode_def ustr_of_def)
  from automatic_correction_one_round [OF demo_contract, of "[99, 97, 102, 233]"
      "[99, 97, 102, 233]" "[99, 97, 102, 233]" Map.empty "[]"] nv
  obtain ps bs where
    "identify_encode_error_positions demo_libs [99, 97, 102, 233] = ([], Inr ps)"
    "encode_data demo_libs (suggest_data_changes demo_libs [99, 97, 102, 233] ps) = Inr bs"
    "correction_loop demo_libs True [99, 97, 102, 233] [99, 97, 102, 233] Map.empty []
       = (Inr bs, [[99, 97, 102, 233] \<mapsto> suggest_data_changes demo_libs [99, 97, 102, 233] ps], [])"
    by blast
  moreover from this(1) have "ps = [3]"
    by (simp add: example_identify)
  ultimately have
    "correction_loop demo_libs True [99, 97, 102, 233] [99, 97, 102, 233] Map.empty []
       = (Inr bs, [[99, 97, 102, 233] \<mapsto> [99, 97, 102, 101]], [])"
    and "encode_data demo_libs [99, 97, 102, 101] = Inr bs"
    by (simp_all add: sg)
  moreover from this(2) have "bs = [0, 99, 97, 102, 101, 0]"
    by (simp add: encode_data_def demo_libs_def demo_sjis_encode_def)
  ultimately show ?thesis
    using demo_contract nv sg example_identify by (simp add: demo_validate)
qed

section \<open>The claims about the writer\<close>











end